theory Spec2Isabelle
  imports Main
begin

section \<open>The LandCoverNet download notebook: data model\<close>

text \<open>
  The notebook \<^verbatim>\<open>notebooks/radiant-mlhub-landcovernet.ipynb\<close> walks the paginated item
  listing of a collection, filters the items by label class, expands every matching item
  into download tasks and hands the tasks to a thread pool. The embedding below follows
  the code cell that defines \<^verbatim>\<open>download_s3\<close>, \<^verbatim>\<open>download_http\<close>, \<^verbatim>\<open>get_download_uri\<close>,
  \<^verbatim>\<open>download\<close>, \<^verbatim>\<open>get_source_item_assets\<close>, \<^verbatim>\<open>download_source_and_labels\<close> and
  \<^verbatim>\<open>get_items\<close>, and the cells that call them.

  The decoded JSON documents are records. A key that the code reads with
  \<^verbatim>\<open>.get(key, default)\<close> is an optional field; a JSON \<^verbatim>\<open>null\<close> is \<open>None\<close>. A key that the
  code reads with a subscript is a field of the record, so the model covers the documents
  that carry these keys with values of the expected shape; a listing whose items or
  links lack one of them is not a value of these types.
\<close>

text \<open>A link object \<^verbatim>\<open>{"rel": ..., "href": ...}\<close>, of a listing page or of an item.\<close>

record link =
  rel :: string
  href :: "string option"

text \<open>
  An item of the listing (\<^verbatim>\<open>feature\<close> in the code): \<^verbatim>\<open>feature['id']\<close>,
  \<^verbatim>\<open>feature['properties'].get('labels', [])\<close>, the href of
  \<^verbatim>\<open>item.get('assets').get('labels')\<close> (\<open>None\<close> when the assets have no \<^verbatim>\<open>labels\<close> entry)
  and \<^verbatim>\<open>item.get('links')\<close>.
\<close>

record feature =
  item_id :: string
  labels :: "string list option"
  assets_labels :: "string option"
  item_links :: "link list"

text \<open>A listing page (\<^verbatim>\<open>collection\<close> in the code), read with \<^verbatim>\<open>.get('features', [])\<close> and
  \<^verbatim>\<open>.get('links', [])\<close>.\<close>

record collection =
  features :: "feature list option"
  links :: "link list option"

text \<open>
  A calendar date, the part of \<^verbatim>\<open>arrow.get(...)\<close> that \<^verbatim>\<open>format('YYYY_MM_DD')\<close> reads, and
  the metadata document of a source item: its \<^verbatim>\<open>properties.datetime\<close> and its \<^verbatim>\<open>assets\<close>
  dictionary as the list of its (key, href) entries in insertion order.
\<close>

record date =
  year :: nat
  month :: nat
  day :: nat

record source_item =
  datetime :: date
  assets :: "(string \<times> string) list"

text \<open>
  What a \<^verbatim>\<open>requests.get\<close> followed by the decoding of the body can do: the request itself
  raises (time-out, refused connection); the request returns, whatever its status, but
  the body is no JSON text, or for a source document has no \<^verbatim>\<open>properties.datetime\<close> that
  \<^verbatim>\<open>arrow.get\<close> reads, so that the first statement after the request raises (the usual
  case of a 500 response); or the body decodes.
\<close>

datatype 'a response = RequestFails | Undecodable | Decoded 'a

text \<open>The answer to \<^verbatim>\<open>requests.get(uri, allow_redirects=False)\<close>: the request raises, or
  it returns headers with or without a \<^verbatim>\<open>Location\<close> entry.\<close>

datatype redirect = RedirectFails | Headers "string option"

text \<open>The exceptions of the model.\<close>

datatype error =
    RequestError      \<comment> \<open>\<^verbatim>\<open>requests.get\<close> raised\<close>
  | DecodeError       \<comment> \<open>\<^verbatim>\<open>r.json()\<close>, a subscript of the decoded body or \<^verbatim>\<open>arrow.get\<close> raised\<close>
  | KeyError string   \<comment> \<open>a missing dictionary key\<close>
  | TypeError         \<comment> \<open>\<^verbatim>\<open>labels['href']\<close> with \<^verbatim>\<open>labels\<close> being \<^verbatim>\<open>None\<close>\<close>
  | ClientError       \<comment> \<open>\<^verbatim>\<open>s3.download_file\<close> raised\<close>
  | ValueError        \<comment> \<open>\<^verbatim>\<open>urlparse\<close> met an unmatched bracket in the network location\<close>
  | OSError           \<comment> \<open>\<^verbatim>\<open>open(filename, 'wb')\<close> raised\<close>
  | RecursionError    \<comment> \<open>the interpreter's recursion limit is exceeded\<close>

text \<open>The outside world: the catalog API, the redirect endpoint, the two storage back
  ends and the local file system (whether a file of a given name can be opened for
  writing).\<close>

record env =
  page_get :: "string \<Rightarrow> collection response"
  source_get :: "string \<Rightarrow> source_item response"
  redirect_get :: "string \<Rightarrow> redirect"
  s3_download_ok :: "string \<Rightarrow> string \<Rightarrow> bool"
  http_get_ok :: "string \<Rightarrow> bool"
  open_ok :: "string \<Rightarrow> bool"

text \<open>
  The observable effects, in the order in which the model performs them: the three
  \<^verbatim>\<open>print\<close> calls, \<^verbatim>\<open>if not os.path.exists(p): os.makedirs(p)\<close>,
  \<^verbatim>\<open>s3.download_file(bucket, key, filename)\<close> and the file written by \<^verbatim>\<open>download_http\<close>.
\<close>

datatype event =
    Loading string
  | Getting string
  | CouldNotLoad "string option"
  | EnsureDir string
  | S3DownloadFile string string string
  | HttpWriteFile string string

type_synonym task = "string \<times> string"

type_synonym 'a run = "event list \<times> (error + 'a)"

section \<open>Paths, dates and URIs\<close>

text \<open>\<^verbatim>\<open>os.path.join(a, b)\<close> of \<^verbatim>\<open>posixpath\<close>.\<close>

definition path_join :: "string \<Rightarrow> string \<Rightarrow> string" where
  "path_join a b =
     (if b \<noteq> [] \<and> hd b = CHR ''/'' then b
      else if a = [] \<or> last a = CHR ''/'' then a @ b
      else a @ ''/'' @ b)"

text \<open>Decimal digits, \<^verbatim>\<open>'{:04d}'\<close> and \<^verbatim>\<open>'{:02d}'\<close>, and arrow's \<^verbatim>\<open>format('YYYY_MM_DD')\<close>.\<close>

definition digit :: "nat \<Rightarrow> char" where
  "digit n = char_of (48 + n mod 10)"

fun dec :: "nat \<Rightarrow> string" where
  "dec n = (if n < 10 then [digit n] else dec (n div 10) @ [digit n])"

declare dec.simps [simp del]

definition zfill :: "nat \<Rightarrow> string \<Rightarrow> string" where
  "zfill w s = replicate (w - length s) CHR ''0'' @ s"

definition format_date :: "date \<Rightarrow> string" where
  "format_date d =
     zfill 4 (dec (year d)) @ ''_'' @ zfill 2 (dec (month d)) @ ''_'' @ zfill 2 (dec (day d))"

text \<open>\<^verbatim>\<open>s.split(c)\<close> for a one-character separator, and \<^verbatim>\<open>s.split('/')[-1]\<close>.\<close>

fun split_on :: "char \<Rightarrow> string \<Rightarrow> string list" where
  "split_on c [] = [[]]"
| "split_on c (x # xs) =
     (if x = c then [] # split_on c xs
      else (case split_on c xs of [] \<Rightarrow> [[x]] | w # ws \<Rightarrow> (x # w) # ws))"

definition last_segment :: "string \<Rightarrow> string" where
  "last_segment s = last (split_on CHR ''/'' s)"

text \<open>
  \<^verbatim>\<open>urllib.parse.urlparse\<close> of the Python standard library, as far as the code reads its
  result (\<^verbatim>\<open>scheme\<close>, \<^verbatim>\<open>netloc\<close>, \<^verbatim>\<open>path\<close>). The library is not part of the repository;
  the definition follows \<^verbatim>\<open>urlsplit\<close>: a prefix of scheme characters before the first
  colon is the scheme, lower-cased, unless what follows the colon is a port number (a
  test that the library skips for \<^verbatim>\<open>http\<close>); after
  \<^verbatim>\<open>//\<close> the network location runs up to the first of \<^verbatim>\<open>/ ? #\<close>; the fragment, the query
  and, for the schemes that use them, the parameters of the last segment are cut off the
  path. A network location with an opening bracket and no closing one, or the reverse,
  makes the library raise \<^verbatim>\<open>ValueError('Invalid IPv6 URL')\<close>.
\<close>

record parse_result =
  scheme :: string
  netloc :: string
  path :: string

definition scheme_char :: "char \<Rightarrow> bool" where
  "scheme_char c =
     (let n = (of_char c :: nat) in
      (97 \<le> n \<and> n \<le> 122) \<or> (65 \<le> n \<and> n \<le> 90) \<or> (48 \<le> n \<and> n \<le> 57)
      \<or> c = CHR ''+'' \<or> c = CHR ''-'' \<or> c = CHR ''.'')"

definition lower :: "char \<Rightarrow> char" where
  "lower c = (let n = (of_char c :: nat) in if 65 \<le> n \<and> n \<le> 90 then char_of (n + 32) else c)"

definition is_digit :: "char \<Rightarrow> bool" where
  "is_digit c = (let n = (of_char c :: nat) in 48 \<le> n \<and> n \<le> 57)"

definition split_scheme :: "string \<Rightarrow> string \<times> string" where
  "split_scheme url =
     (let pre = takeWhile (\<lambda>c. c \<noteq> CHR '':'') url;
          post = dropWhile (\<lambda>c. c \<noteq> CHR '':'') url
      in if post \<noteq> [] \<and> pre \<noteq> [] \<and> list_all scheme_char pre
            \<and> (pre = ''http'' \<or> tl post = [] \<or> \<not> list_all is_digit (tl post))
         then (map lower pre, tl post)
         else ([], url))"

definition split_netloc :: "string \<Rightarrow> string \<times> string" where
  "split_netloc url =
     (if take 2 url = ''//''
      then (let stop = (\<lambda>c. c = CHR ''/'' \<or> c = CHR ''?'' \<or> c = CHR ''#'')
            in (takeWhile (\<lambda>c. \<not> stop c) (drop 2 url), dropWhile (\<lambda>c. \<not> stop c) (drop 2 url)))
      else ([], url))"

definition uses_params :: "string list" where
  "uses_params = ['''', ''ftp'', ''hdl'', ''prospero'', ''http'', ''imap'', ''https'', ''shttp'',
     ''rtsp'', ''rtspu'', ''sip'', ''sips'', ''mms'', ''sftp'', ''tel'']"

definition split_params :: "string \<Rightarrow> string" where
  "split_params url =
     (let seg = last_segment url
      in if CHR '';'' \<in> set seg
         then take (length url - length seg) url @ takeWhile (\<lambda>c. c \<noteq> CHR '';'') seg
         else url)"

definition urlparse :: "string \<Rightarrow> error + parse_result" where
  "urlparse url =
     (let (sch, rest) = split_scheme url;
          (loc, rest1) = split_netloc rest;
          rest2 = takeWhile (\<lambda>c. c \<noteq> CHR ''#'') rest1;
          rest3 = takeWhile (\<lambda>c. c \<noteq> CHR ''?'') rest2;
          p = (if sch \<in> set uses_params \<and> CHR '';'' \<in> set rest3 then split_params rest3 else rest3)
      in if (CHR ''['' \<in> set loc \<and> CHR '']'' \<notin> set loc) \<or> (CHR '']'' \<in> set loc \<and> CHR ''['' \<notin> set loc)
         then Inl ValueError
         else Inr \<lparr>scheme = sch, netloc = loc, path = p\<rparr>)"

section \<open>The thread pool\<close>

text \<open>
  \<^verbatim>\<open>p = ThreadPool(20)\<close> and \<^verbatim>\<open>p.map(func, iterable)\<close> of \<^verbatim>\<open>multiprocessing.pool\<close>.
  The library cuts the list into chunks of \<^verbatim>\<open>ceil(len / (4 * 20))\<close> tasks; a worker runs a
  chunk as \<^verbatim>\<open>list(map(func, chunk))\<close>, so the first exception of a chunk ends that chunk;
  every chunk is run; and \<^verbatim>\<open>map\<close> returns the results in order when no chunk raised and
  re-raises an exception otherwise. The model lists the effects chunk by chunk (the
  interleaving of the threads is not modelled) and re-raises the exception of the first
  failing chunk.
\<close>

definition pool_size :: nat where
  "pool_size = 20"

definition chunksize :: "nat \<Rightarrow> nat" where
  "chunksize len = (if len mod (pool_size * 4) \<noteq> 0 then len div (pool_size * 4) + 1
                    else len div (pool_size * 4))"

function chunks :: "nat \<Rightarrow> 'a list \<Rightarrow> 'a list list" where
  "chunks n xs = (if n = 0 \<or> xs = [] then [] else take n xs # chunks n (drop n xs))"
  by pat_completeness auto
termination
  by (relation "measure (\<lambda>(n, xs). length xs)") auto

declare chunks.simps [simp del]

fun run_chunk :: "('a \<Rightarrow> 'b run) \<Rightarrow> 'a list \<Rightarrow> ('b list) run" where
  "run_chunk f [] = ([], Inr [])"
| "run_chunk f (x # xs) =
     (case f x of
        (ev, Inl e) \<Rightarrow> (ev, Inl e)
      | (ev, Inr y) \<Rightarrow>
          (case run_chunk f xs of
             (evs, Inl e) \<Rightarrow> (ev @ evs, Inl e)
           | (evs, Inr ys) \<Rightarrow> (ev @ evs, Inr (y # ys))))"

fun gather :: "('b list) run list \<Rightarrow> ('b list) run" where
  "gather [] = ([], Inr [])"
| "gather ((ev, r) # cs) =
     (case gather cs of
        (evs, rs) \<Rightarrow>
          (ev @ evs,
           case r of
             Inl e \<Rightarrow> Inl e
           | Inr ys \<Rightarrow> (case rs of Inl e \<Rightarrow> Inl e | Inr zs \<Rightarrow> Inr (ys @ zs))))"

definition pool_map :: "('a \<Rightarrow> 'b run) \<Rightarrow> 'a list \<Rightarrow> ('b list) run" where
  "pool_map f xs = gather (map (run_chunk f) (chunks (chunksize (length xs)) xs))"

section \<open>Resolving and fetching one asset\<close>

text \<open>
  \<^verbatim>\<open>download_s3(uri, path)\<close>: bucket and key from the parsed URI, then
  \<^verbatim>\<open>s3.download_file(bucket, key, os.path.join(path, key.split('/')[-1]))\<close>.
\<close>

definition download_s3 :: "env \<Rightarrow> string \<Rightarrow> string \<Rightarrow> unit run" where
  "download_s3 E uri dir =
     (case urlparse uri of
        Inl e \<Rightarrow> ([], Inl e)
      | Inr parsed \<Rightarrow>
          (let bucket = netloc parsed;
               key = drop 1 (path parsed)
           in if s3_download_ok E bucket key
              then ([S3DownloadFile bucket key (path_join dir (last_segment key))], Inr ())
              else ([], Inl ClientError)))"

text \<open>
  \<^verbatim>\<open>download_http(uri, path)\<close>: \<^verbatim>\<open>requests.get(uri)\<close>, then
  \<^verbatim>\<open>open(os.path.join(path, parsed.path.split('/')[-1]), 'wb')\<close>, then the body is written
  to the file. The \<^verbatim>\<open>open\<close> raises for the empty name and for a name that ends with a
  slash (the path of the URI is empty or ends with a slash), and where the file system
  refuses the name.
\<close>

definition download_http :: "env \<Rightarrow> string \<Rightarrow> string \<Rightarrow> unit run" where
  "download_http E uri dir =
     (case urlparse uri of
        Inl e \<Rightarrow> ([], Inl e)
      | Inr parsed \<Rightarrow>
          if \<not> http_get_ok E uri then ([], Inl RequestError)
          else (let filename = path_join dir (last_segment (path parsed))
                in if filename = [] \<or> last filename = CHR ''/'' \<or> \<not> open_ok E filename
                   then ([], Inl OSError)
                   else ([HttpWriteFile uri filename], Inr ())))"

text \<open>\<^verbatim>\<open>get_download_uri(uri)\<close>: the \<^verbatim>\<open>Location\<close> header of the unfollowed redirect. The
  headers of \<^verbatim>\<open>requests\<close> look a key up in lower case and name it so in the \<^verbatim>\<open>KeyError\<close>.\<close>

definition get_download_uri :: "env \<Rightarrow> string \<Rightarrow> error + string" where
  "get_download_uri E uri =
     (case redirect_get E uri of
        RedirectFails \<Rightarrow> Inl RequestError
      | Headers None \<Rightarrow> Inl (KeyError ''location'')
      | Headers (Some l) \<Rightarrow> Inr l)"

text \<open>\<^verbatim>\<open>download(d)\<close>: resolve, parse, then dispatch on the scheme. The function has no
  \<^verbatim>\<open>try\<close>; a scheme that is neither of the three does nothing.\<close>

definition download :: "env \<Rightarrow> task \<Rightarrow> unit run" where
  "download E d =
     (let href = fst d; dir = snd d
      in case get_download_uri E href of
           Inl e \<Rightarrow> ([], Inl e)
         | Inr download_uri \<Rightarrow>
             (case urlparse download_uri of
                Inl e \<Rightarrow> ([], Inl e)
              | Inr parsed \<Rightarrow>
                  if scheme parsed \<in> set [''s3''] then download_s3 E download_uri dir
                  else if scheme parsed \<in> set [''http'', ''https'']
                  then download_http E download_uri dir
                  else ([], Inr ())))"

text \<open>The cells that run the tasks: \<^verbatim>\<open>for d in tqdm(to_download): p.map(download, d)\<close>.
  An exception of \<^verbatim>\<open>p.map\<close> ends the loop.\<close>

fun run_downloads :: "env \<Rightarrow> task list list \<Rightarrow> unit run" where
  "run_downloads E [] = ([], Inr ())"
| "run_downloads E (d # ds) =
     (case pool_map (download E) d of
        (ev, Inl e) \<Rightarrow> (ev, Inl e)
      | (ev, Inr _) \<Rightarrow> (case run_downloads E ds of (evs, r) \<Rightarrow> (ev @ evs, r)))"

section \<open>Expanding one item\<close>

text \<open>
  \<^verbatim>\<open>get_source_item_assets((path, href))\<close>. Only \<^verbatim>\<open>requests.get\<close> is inside the \<^verbatim>\<open>try\<close>;
  \<^verbatim>\<open>requests.get(None, ...)\<close> raises there too. The decoding of the body is outside. The
  event \<open>EnsureDir\<close> stands for a directory that is there afterwards: the model does not
  follow the threads of the pool, where two sub-items of one capture date can both find
  the directory missing and the second \<^verbatim>\<open>os.makedirs\<close> then raises.
\<close>

definition get_source_item_assets :: "env \<Rightarrow> string \<times> string option \<Rightarrow> (task list) run" where
  "get_source_item_assets E args =
     (let dir = fst args; h = snd args
      in case h of
           None \<Rightarrow> ([CouldNotLoad h], Inr [])
         | Some u \<Rightarrow>
             (case source_get E u of
                RequestFails \<Rightarrow> ([CouldNotLoad h], Inr [])
              | Undecodable \<Rightarrow> ([], Inl DecodeError)
              | Decoded r \<Rightarrow>
                  (let dt = format_date (datetime r);
                       asset_path = path_join dir dt
                   in ([EnsureDir asset_path],
                       Inr (map (\<lambda>(key, asset_href). (asset_href, asset_path)) (assets r))))))"

text \<open>The root directory of an item, \<^verbatim>\<open>f'landcovernet/{item["id"]}/'\<close>.\<close>

definition item_path :: "feature \<Rightarrow> string" where
  "item_path item = ''landcovernet/'' @ item_id item @ ''/''"

text \<open>\<^verbatim>\<open>download_source_and_labels(item)\<close>: one batch per source link, in link order, and
  the batch of the label asset appended last.\<close>

definition download_source_and_labels :: "env \<Rightarrow> feature \<Rightarrow> (task list list) run" where
  "download_source_and_labels E item =
     (let dir = item_path item;
          source_items = map (\<lambda>l. (dir, href l)) (filter (\<lambda>l. rel l = ''source'') (item_links item))
      in case pool_map (get_source_item_assets E) source_items of
           (ev, Inl e) \<Rightarrow> (EnsureDir dir # ev, Inl e)
         | (ev, Inr results) \<Rightarrow>
             (case assets_labels item of
                None \<Rightarrow> (EnsureDir dir # ev, Inl TypeError)
              | Some h \<Rightarrow> (EnsureDir dir # ev, Inr (results @ [[(h, dir)]]))))"

section \<open>Walking the listing\<close>

text \<open>The class test at the head of the loop body of \<^verbatim>\<open>get_items\<close>: the inner loop over
  \<^verbatim>\<open>feature['properties'].get('labels', [])\<close> with its \<^verbatim>\<open>break\<close>.\<close>

fun label_loop :: "string list \<Rightarrow> string list \<Rightarrow> bool" where
  "label_loop classes [] = False"
| "label_loop classes (label_class # rest) =
     (if label_class \<in> set classes then True else label_loop classes rest)"

definition matches_class :: "string list option \<Rightarrow> feature \<Rightarrow> bool" where
  "matches_class classes f =
     (case classes of
        None \<Rightarrow> True
      | Some cs \<Rightarrow> label_loop cs (case labels f of None \<Rightarrow> [] | Some ls \<Rightarrow> ls))"

text \<open>
  The state that a call of \<^verbatim>\<open>get_items\<close> works on: the list object \<^verbatim>\<open>downloads\<close>, which
  all recursive calls share and extend in place, and the effects so far.
\<close>

record walk =
  downloads :: "task list list"
  trace :: "event list"

datatype outcome = Returned walk | Raised error walk

text \<open>How the loop over the features ends: it runs to its end with the counter
  \<^verbatim>\<open>items_downloaded\<close>, it executes \<^verbatim>\<open>return downloads\<close>, or an exception leaves it.\<close>

datatype loop_exit = Exhausted int walk | Return walk | Raise error walk

definition emit :: "event list \<Rightarrow> walk \<Rightarrow> walk" where
  "emit evs w = w\<lparr>trace := trace w @ evs\<rparr>"

fun feature_loop ::
  "env \<Rightarrow> string list option \<Rightarrow> int option \<Rightarrow> feature list \<Rightarrow> int \<Rightarrow> walk \<Rightarrow> loop_exit" where
  "feature_loop E classes max_items_downloaded [] items_downloaded w =
     Exhausted items_downloaded w"
| "feature_loop E classes max_items_downloaded (f # fs) items_downloaded w =
     (if \<not> matches_class classes f
      then feature_loop E classes max_items_downloaded fs items_downloaded w
      else
        (case download_source_and_labels E f of
           (ev, Inl e) \<Rightarrow> Raise e (emit (Getting (item_id f) # ev) w)
         | (ev, Inr batches) \<Rightarrow>
             (let w' = (emit (Getting (item_id f) # ev) w)\<lparr>downloads := downloads w @ batches\<rparr>;
                  items_downloaded' = items_downloaded + 1
              in if max_items_downloaded \<noteq> None \<and> items_downloaded' \<ge> the max_items_downloaded
                 then Return w'
                 else feature_loop E classes max_items_downloaded fs items_downloaded' w')))"

text \<open>
  \<^verbatim>\<open>get_items\<close> and its loop over the links. Every page below the first is loaded by a
  nested call, one Python frame deeper, and the interpreter ends a recursion that is too
  deep with \<^verbatim>\<open>RecursionError\<close>. The first argument is the number of further nested calls
  of \<^verbatim>\<open>get_items\<close> for which the stack has room; the call that does not fit raises on
  entry (where exactly the interpreter gives up depends on the frames that the
  libraries need). The loop over the links has no \<^verbatim>\<open>break\<close> and ignores what the recursive
  call returns; the counter of the caller is passed down by value.
\<close>

fun get_items ::
  "nat \<Rightarrow> env \<Rightarrow> string \<Rightarrow> string list option \<Rightarrow> int option \<Rightarrow> int \<Rightarrow> walk \<Rightarrow> outcome"
and link_loop ::
  "nat \<Rightarrow> env \<Rightarrow> string list option \<Rightarrow> int option \<Rightarrow> int \<Rightarrow> link list \<Rightarrow> walk \<Rightarrow> outcome"
where
  "get_items n E uri classes max_items_downloaded items_downloaded w =
     (let w1 = emit [Loading uri] w
      in case page_get E uri of
           RequestFails \<Rightarrow> Raised RequestError w1
         | Undecodable \<Rightarrow> Raised DecodeError w1
         | Decoded collection \<Rightarrow>
             (case feature_loop E classes max_items_downloaded
                     (case features collection of None \<Rightarrow> [] | Some fs \<Rightarrow> fs) items_downloaded w1 of
                Raise e w2 \<Rightarrow> Raised e w2
              | Return w2 \<Rightarrow> Returned w2
              | Exhausted items_downloaded' w2 \<Rightarrow>
                  link_loop n E classes max_items_downloaded items_downloaded'
                    (case links collection of None \<Rightarrow> [] | Some ls \<Rightarrow> ls) w2))"
| "link_loop n E classes max_items_downloaded items_downloaded [] w = Returned w"
| "link_loop n E classes max_items_downloaded items_downloaded (l # ls) w =
     (if rel l = ''next'' \<and> href l \<noteq> None
      then (case n of
              0 \<Rightarrow> Raised RecursionError w
            | Suc m \<Rightarrow>
                (case get_items m E (the (href l)) classes max_items_downloaded items_downloaded w of
                   Raised e w' \<Rightarrow> Raised e w'
                 | Returned w' \<Rightarrow>
                     link_loop n E classes max_items_downloaded items_downloaded ls w'))
      else link_loop n E classes max_items_downloaded items_downloaded ls w)"

declare get_items.simps [simp del]

text \<open>
  A call from a cell. The default of the parameter \<^verbatim>\<open>downloads=[]\<close> is one list object,
  created when the \<^verbatim>\<open>def\<close> is executed and kept in the function object; a call that omits
  the argument works on that object, a call that passes \<^verbatim>\<open>downloads=[]\<close> on a new one. The
  interpreter state holds the default object and the output so far. What a raising call
  has appended to the default object before it raised stays there.
\<close>

record interp =
  default_downloads :: "task list list"
  stdout :: "event list"

definition call_get_items ::
  "nat \<Rightarrow> env \<Rightarrow> string \<Rightarrow> string list option \<Rightarrow> int option \<Rightarrow> task list list option
     \<Rightarrow> interp \<Rightarrow> (error + task list list) \<times> interp" where
  "call_get_items n E uri classes max_items_downloaded downloads_arg s =
     (let acc = (case downloads_arg of None \<Rightarrow> default_downloads s | Some ds \<Rightarrow> ds);
          keep = (\<lambda>w. \<lparr>default_downloads =
                         (case downloads_arg of None \<Rightarrow> downloads w | Some _ \<Rightarrow> default_downloads s),
                       stdout = trace w\<rparr>)
      in case get_items n E uri classes max_items_downloaded 0 \<lparr>downloads = acc, trace = stdout s\<rparr> of
           Raised e w \<Rightarrow> (Inl e, keep w)
         | Returned w \<Rightarrow> (Inr (downloads w), keep w))"

text \<open>Reading a trace: the pages loaded and the items expanded, in order.\<close>

fun pages_loaded :: "event list \<Rightarrow> string list" where
  "pages_loaded [] = []"
| "pages_loaded (Loading u # es) = u # pages_loaded es"
| "pages_loaded (_ # es) = pages_loaded es"

fun items_expanded :: "event list \<Rightarrow> string list" where
  "items_expanded [] = []"
| "items_expanded (Getting i # es) = i # items_expanded es"
| "items_expanded (_ # es) = items_expanded es"

section \<open>Notions used in the statements\<close>

text \<open>The links of an item that \<^verbatim>\<open>download_source_and_labels\<close> follows.\<close>

definition source_links :: "feature \<Rightarrow> link list" where
  "source_links item = filter (\<lambda>l. rel l = ''source'') (item_links item)"

text \<open>The number of assets of the sub-item behind a source link when its metadata is
  fetched and decoded, and nothing otherwise.\<close>

definition fetched_asset_count :: "env \<Rightarrow> link \<Rightarrow> nat" where
  "fetched_asset_count E l =
     (case href l of
        None \<Rightarrow> 0
      | Some u \<Rightarrow> (case source_get E u of Decoded r \<Rightarrow> length (assets r) | _ \<Rightarrow> 0))"

text \<open>An example catalog: two listing pages, three items, three source documents of
  which one times out and one answers with a 500 page, and three asset hrefs.\<close>

definition example_item_a :: feature where
  "example_item_a =
     \<lparr>item_id = ''a'', labels = Some [''Water'', ''Woody Vegetation''], assets_labels = Some ''la'',
      item_links = [\<lparr>rel = ''source'', href = Some ''s1''\<rparr>, \<lparr>rel = ''self'', href = Some ''a''\<rparr>,
                    \<lparr>rel = ''source'', href = Some ''s2''\<rparr>]\<rparr>"

definition example_item_b :: feature where
  "example_item_b =
     \<lparr>item_id = ''b'', labels = Some [''No Data''], assets_labels = Some ''lb'',
      item_links = [\<lparr>rel = ''source'', href = Some ''s3''\<rparr>, \<lparr>rel = ''source'', href = Some ''s1''\<rparr>]\<rparr>"

definition example_item_c :: feature where
  "example_item_c =
     \<lparr>item_id = ''c'', labels = None, assets_labels = Some ''lc'', item_links = []\<rparr>"

definition example_env :: env where
  "example_env =
     \<lparr>page_get = (\<lambda>u.
        if u = ''p1'' then Decoded \<lparr>features = Some [example_item_a, example_item_b],
                                     links = Some [\<lparr>rel = ''self'', href = Some ''p1''\<rparr>,
                                                   \<lparr>rel = ''next'', href = Some ''p2''\<rparr>]\<rparr>
        else if u = ''p2'' then Decoded \<lparr>features = Some [example_item_c],
                                          links = Some [\<lparr>rel = ''next'', href = None\<rparr>]\<rparr>
        else RequestFails),
      source_get = (\<lambda>u.
        if u = ''s1'' then Decoded \<lparr>datetime = \<lparr>year = 2018, month = 1, day = 7\<rparr>,
                                     assets = [(''B01'', ''h1''), (''B02'', ''h2'')]\<rparr>
        else if u = ''s3'' then Undecodable
        else RequestFails),
      redirect_get = (\<lambda>u.
        if u = ''h1'' then Headers (Some ''s3://bucket/path/to/file.tif'')
        else if u = ''h2'' then Headers None
        else if u = ''la'' then Headers (Some ''https://example.org/labels/a.tif'')
        else RedirectFails),
      s3_download_ok = (\<lambda>b k. True),
      http_get_ok = (\<lambda>u. True),
      open_ok = (\<lambda>f. True)\<rparr>"

text \<open>The walk that an outcome or a loop exit leaves behind, and a walk put in front of
  another: the state that a call started from, before what the call added.\<close>

fun walk_of :: "outcome \<Rightarrow> walk" where
  "walk_of (Returned w) = w"
| "walk_of (Raised e w) = w"

fun exit_walk :: "loop_exit \<Rightarrow> walk" where
  "exit_walk (Exhausted k w) = w"
| "exit_walk (Return w) = w"
| "exit_walk (Raise e w) = w"

definition prepend :: "walk \<Rightarrow> walk \<Rightarrow> walk" where
  "prepend v w = \<lparr>downloads = downloads v @ downloads w, trace = trace v @ trace w\<rparr>"

definition empty_walk :: walk where
  "empty_walk = \<lparr>downloads = [], trace = []\<rparr>"

fun map_outcome :: "(walk \<Rightarrow> walk) \<Rightarrow> outcome \<Rightarrow> outcome" where
  "map_outcome g (Returned w) = Returned (g w)"
| "map_outcome g (Raised e w) = Raised e (g w)"

fun map_exit :: "(walk \<Rightarrow> walk) \<Rightarrow> loop_exit \<Rightarrow> loop_exit" where
  "map_exit g (Exhausted k w) = Exhausted k (g w)"
| "map_exit g (Return w) = Return (g w)"
| "map_exit g (Raise e w) = Raise e (g w)"

text \<open>The hrefs that the loop over the links of a page passes to \<^verbatim>\<open>get_items\<close>, and the
  walk that follows every one of a list of hrefs in turn, each with the same counter,
  until one of the walks raises.\<close>

definition next_hrefs :: "link list \<Rightarrow> string list" where
  "next_hrefs ls = map (the \<circ> href) (filter (\<lambda>l. rel l = ''next'' \<and> href l \<noteq> None) ls)"

fun follow_all ::
  "nat \<Rightarrow> env \<Rightarrow> string list option \<Rightarrow> int option \<Rightarrow> int \<Rightarrow> string list \<Rightarrow> walk \<Rightarrow> outcome" where
  "follow_all m E classes mx k [] w = Returned w"
| "follow_all m E classes mx k (u # us) w =
     (case get_items m E u classes mx k w of
        Raised e w' \<Rightarrow> Raised e w'
      | Returned w' \<Rightarrow> follow_all m E classes mx k us w')"

text \<open>A finite chain of listing pages: the page at \<open>u\<close> decodes and its only next href is
  the head of the list, and so on; the last page has no next href.\<close>

fun chain :: "env \<Rightarrow> string \<Rightarrow> string list \<Rightarrow> bool" where
  "chain E u [] =
     (case page_get E u of
        Decoded p \<Rightarrow> next_hrefs (case links p of None \<Rightarrow> [] | Some ls \<Rightarrow> ls) = []
      | _ \<Rightarrow> False)"
| "chain E u (v # vs) =
     (case page_get E u of
        Decoded p \<Rightarrow> next_hrefs (case links p of None \<Rightarrow> [] | Some ls \<Rightarrow> ls) = [v] \<and> chain E v vs
      | _ \<Rightarrow> False)"

text \<open>A trace keeps to a budget \<open>b\<close> when every page is loaded and every item expanded
  while fewer than \<open>b\<close> items have been expanded before.\<close>

fun budget :: "nat \<Rightarrow> event list \<Rightarrow> bool" where
  "budget b [] = True"
| "budget b (Loading u # es) = (0 < b \<and> budget b es)"
| "budget b (Getting i # es) = (0 < b \<and> budget (b - 1) es)"
| "budget b (_ # es) = budget b es"

fun quiet :: "event \<Rightarrow> bool" where
  "quiet (Loading u) = False"
| "quiet (Getting i) = False"
| "quiet _ = True"

text \<open>A catalog whose first page carries two next links.\<close>

definition plain_item :: "string \<Rightarrow> feature" where
  "plain_item i = \<lparr>item_id = i, labels = None, assets_labels = Some (i @ ''_labels''), item_links = []\<rparr>"

definition branching_env :: env where
  "branching_env =
     \<lparr>page_get = (\<lambda>u.
        if u = ''q1'' then Decoded \<lparr>features = Some [plain_item ''x''],
                                     links = Some [\<lparr>rel = ''next'', href = Some ''q2''\<rparr>,
                                                   \<lparr>rel = ''next'', href = Some ''q3''\<rparr>]\<rparr>
        else if u = ''q2'' then Decoded \<lparr>features = Some [plain_item ''y''], links = None\<rparr>
        else if u = ''q3'' then Decoded \<lparr>features = Some [plain_item ''z''], links = None\<rparr>
        else RequestFails),
      source_get = (\<lambda>u. RequestFails),
      redirect_get = (\<lambda>u. RedirectFails),
      s3_download_ok = (\<lambda>b k. False),
      http_get_ok = (\<lambda>u. False),
      open_ok = (\<lambda>f. False)\<rparr>"

text \<open>
  The walk over a chain as the specification describes it, to be compared with
  \<^verbatim>\<open>get_items\<close>: one loop over the pages of the chain in order and, on each page, over the
  items that pass the class test. A step loads a page or expands an item; an expansion
  that raises ends the walk with that exception, and the walk returns the accumulator as
  soon as the counter reaches the cap, or at the end of the steps.
\<close>

datatype step = Page string | Item feature

definition page_features :: "env \<Rightarrow> string \<Rightarrow> feature list" where
  "page_features E u =
     (case page_get E u of
        Decoded p \<Rightarrow> (case features p of None \<Rightarrow> [] | Some fs \<Rightarrow> fs)
      | _ \<Rightarrow> [])"

definition chain_items :: "env \<Rightarrow> string list option \<Rightarrow> string list \<Rightarrow> feature list" where
  "chain_items E classes us = concat (map (\<lambda>u. filter (matches_class classes) (page_features E u)) us)"

definition chain_steps :: "env \<Rightarrow> string list option \<Rightarrow> string list \<Rightarrow> step list" where
  "chain_steps E classes us =
     concat (map (\<lambda>u. Page u # map Item (filter (matches_class classes) (page_features E u))) us)"

fun flat_walk :: "env \<Rightarrow> int option \<Rightarrow> int \<Rightarrow> step list \<Rightarrow> walk \<Rightarrow> outcome" where
  "flat_walk E mx k [] w = Returned w"
| "flat_walk E mx k (Page u # ss) w = flat_walk E mx k ss (emit [Loading u] w)"
| "flat_walk E mx k (Item f # ss) w =
     (case download_source_and_labels E f of
        (ev, Inl e) \<Rightarrow> Raised e (emit (Getting (item_id f) # ev) w)
      | (ev, Inr batches) \<Rightarrow>
          (let w' = (emit (Getting (item_id f) # ev) w)\<lparr>downloads := downloads w @ batches\<rparr>
           in if mx \<noteq> None \<and> k + 1 \<ge> the mx then Returned w'
              else flat_walk E mx (k + 1) ss w'))"

text \<open>The batches that the expansion of an item adds to the accumulator, and the pages
  and items of a list of steps.\<close>

definition expand_batches :: "env \<Rightarrow> feature \<Rightarrow> task list list" where
  "expand_batches E f =
     (case download_source_and_labels E f of (ev, Inr batches) \<Rightarrow> batches | (ev, Inl e) \<Rightarrow> [])"

fun step_pages :: "step list \<Rightarrow> string list" where
  "step_pages [] = []"
| "step_pages (Page u # ss) = u # step_pages ss"
| "step_pages (Item f # ss) = step_pages ss"

fun step_items :: "step list \<Rightarrow> feature list" where
  "step_items [] = []"
| "step_items (Page u # ss) = step_items ss"
| "step_items (Item f # ss) = f # step_items ss"

text \<open>Three redirects: to a URI with an unmatched bracket in the host, to a URI without
  a path, and to a URI with a scheme that \<^verbatim>\<open>download\<close> does not handle.\<close>

definition odd_redirect_env :: env where
  "odd_redirect_env =
     \<lparr>page_get = (\<lambda>u. RequestFails),
      source_get = (\<lambda>u. RequestFails),
      redirect_get = (\<lambda>u.
        if u = ''r1'' then Headers (Some ''http://[::1/x'')
        else if u = ''r2'' then Headers (Some ''https://example.org'')
        else if u = ''r3'' then Headers (Some ''ftp://example.org/a.tif'')
        else RedirectFails),
      s3_download_ok = (\<lambda>b k. True),
      http_get_ok = (\<lambda>u. True),
      open_ok = (\<lambda>f. True)\<rparr>"

section \<open>Auxiliary facts\<close>

subsection \<open>The class test\<close>

lemma label_loop_iff: "label_loop cs ls \<longleftrightarrow> set ls \<inter> set cs \<noteq> {}"
  by (induction ls) auto

subsection \<open>Dates, paths and URIs\<close>

lemma digit_not_slash: "digit n \<noteq> CHR ''/''"
proof
  assume "digit n = CHR ''/''"
  then have "(of_char (digit n) :: nat) = of_char CHR ''/''" by simp
  then have *: "(48 + n mod 10) mod 256 = (47::nat)" by (simp add: digit_def)
  have "n mod 10 < 10" by simp
  then have "48 + n mod 10 < 256" by linarith
  then have "(48 + n mod 10) mod 256 = 48 + n mod 10" by (rule mod_less)
  with * show False by linarith
qed

lemma digit_zero: "digit 0 = CHR ''0''"
proof -
  have "(of_char (digit 0) :: nat) = of_char CHR ''0''" by (simp add: digit_def)
  then show ?thesis by (simp only: of_char_eq_iff)
qed

lemma dec_small: "n < 10 \<Longrightarrow> dec n = [digit n]"
  by (subst dec.simps) simp

lemma dec_big: "\<not> n < 10 \<Longrightarrow> dec n = dec (n div 10) @ [digit n]"
  by (subst dec.simps) simp

lemma dec_hd: "dec n \<noteq> [] \<and> (\<exists>k. hd (dec n) = digit k)"
proof (induction n rule: dec.induct)
  case (1 n)
  show ?case
  proof (cases "n < 10")
    case True
    then show ?thesis by (auto simp: dec_small)
  next
    case False
    with 1 show ?thesis by (auto simp: dec_big hd_append)
  qed
qed

lemma zfill_hd: "s \<noteq> [] \<Longrightarrow> \<exists>k. hd s = digit k \<Longrightarrow> zfill w s \<noteq> [] \<and> (\<exists>k. hd (zfill w s) = digit k)"
  by (cases "w - length s") (auto simp: zfill_def hd_append intro: exI[of _ 0] simp: digit_zero)

lemma format_date_hd: "format_date d \<noteq> [] \<and> hd (format_date d) \<noteq> CHR ''/''"
proof -
  obtain k where "zfill 4 (dec (year d)) \<noteq> []" "hd (zfill 4 (dec (year d))) = digit k"
    using zfill_hd[OF conjunct1[OF dec_hd] conjunct2[OF dec_hd], of 4 "year d"] by blast
  then show ?thesis by (simp add: format_date_def hd_append digit_not_slash)
qed

lemma item_path_last: "item_path I \<noteq> [] \<and> last (item_path I) = CHR ''/''"
  by (simp add: item_path_def)

lemma asset_path_eq: "path_join (item_path I) (format_date d) = item_path I @ format_date d"
  using format_date_hd[of d] item_path_last[of I] by (simp add: path_join_def)

lemma replicate_3: "replicate 3 x = [x, x, x]"
  by (simp add: numeral_3_eq_3)

lemma replicate_2: "replicate 2 x = [x, x]"
  by (simp add: numeral_2_eq_2)

lemma zfill_dec4:
  assumes "n < 10000"
  shows "zfill 4 (dec n) = [digit (n div 1000), digit (n div 100), digit (n div 10), digit n]"
proof -
  have h: "n div 10 div 10 = n div 100" "n div 100 div 10 = n div 1000"
    by (simp_all add: div_mult2_eq[symmetric])
  consider "n < 10" | "10 \<le> n" "n < 100" | "100 \<le> n" "n < 1000" | "1000 \<le> n"
    by linarith
  then show ?thesis
  proof cases
    case 1
    then have z: "n div 1000 = 0" "n div 100 = 0" "n div 10 = 0" by simp_all
    have e1: "dec n = [digit n]" using 1 by (rule dec_small)
    show ?thesis by (simp only: e1) (simp add: z zfill_def digit_zero replicate_3)
  next
    case 2
    then have z: "n div 1000 = 0" "n div 100 = 0" by simp_all
    have e1: "dec n = dec (n div 10) @ [digit n]" using 2 by (intro dec_big) simp
    have e2: "dec (n div 10) = [digit (n div 10)]" using 2 by (intro dec_small) simp
    show ?thesis by (simp only: e1 e2) (simp add: z zfill_def digit_zero replicate_2)
  next
    case 3
    then have z: "n div 1000 = 0" by simp
    have e1: "dec n = dec (n div 10) @ [digit n]" using 3 by (intro dec_big) simp
    have e2: "dec (n div 10) = dec (n div 10 div 10) @ [digit (n div 10)]"
      using 3 by (intro dec_big) simp
    have e3: "dec (n div 10 div 10) = [digit (n div 10 div 10)]"
      using 3 by (intro dec_small) simp
    show ?thesis by (simp only: e1 e2 e3) (simp add: h z zfill_def digit_zero)
  next
    case 4
    have e1: "dec n = dec (n div 10) @ [digit n]" using 4 by (intro dec_big) simp
    have e2: "dec (n div 10) = dec (n div 10 div 10) @ [digit (n div 10)]"
      using 4 by (intro dec_big) simp
    have e3: "dec (n div 10 div 10) = dec (n div 10 div 10 div 10) @ [digit (n div 10 div 10)]"
      using 4 by (intro dec_big) simp
    have e4: "dec (n div 10 div 10 div 10) = [digit (n div 10 div 10 div 10)]"
      using 4 assms by (intro dec_small) simp
    show ?thesis by (simp only: e1 e2 e3 e4) (simp add: h zfill_def)
  qed
qed

lemma zfill_dec2:
  assumes "n < 100"
  shows "zfill 2 (dec n) = [digit (n div 10), digit n]"
proof (cases "n < 10")
  case True
  then have z: "n div 10 = 0" by simp
  have e1: "dec n = [digit n]" using True by (rule dec_small)
  show ?thesis by (simp only: e1) (simp add: z zfill_def digit_zero)
next
  case False
  have e1: "dec n = dec (n div 10) @ [digit n]" using False by (rule dec_big)
  have e2: "dec (n div 10) = [digit (n div 10)]" using assms by (intro dec_small) simp
  show ?thesis by (simp only: e1 e2) (simp add: zfill_def)
qed

lemma format_date_shape:
  assumes "year d < 10000" "month d < 100" "day d < 100"
  shows "format_date d =
    [digit (year d div 1000), digit (year d div 100), digit (year d div 10), digit (year d),
     CHR ''_'', digit (month d div 10), digit (month d),
     CHR ''_'', digit (day d div 10), digit (day d)]"
  using assms by (simp add: format_date_def zfill_dec4 zfill_dec2)

lemma split_on_nonempty: "split_on c s \<noteq> []"
  by (induction s) (auto split: list.splits)

lemma split_on_append: "split_on c (xs @ c # ys) = split_on c xs @ split_on c ys"
proof (induction xs)
  case Nil
  then show ?case by simp
next
  case (Cons x xs)
  obtain w ws where "split_on c xs = w # ws"
    using split_on_nonempty[of c xs] by (cases "split_on c xs") auto
  with Cons show ?case by simp
qed

lemma split_on_single: "c \<notin> set s \<Longrightarrow> split_on c s = [s]"
  by (induction s) auto

lemma last_segment_plain: "CHR ''/'' \<notin> set b \<Longrightarrow> last_segment b = b"
  by (simp add: last_segment_def split_on_single)

lemma last_segment_slash: "last_segment (a @ CHR ''/'' # b) = last_segment b"
  by (simp add: last_segment_def split_on_append split_on_nonempty)

lemma last_segment_join:
  assumes "CHR ''/'' \<notin> set b"
  shows "last_segment (path_join a b) = b"
proof -
  have hd: "\<not> (b \<noteq> [] \<and> hd b = CHR ''/'')" using assms by (cases b) auto
  show ?thesis
  proof (cases "a = []")
    case True
    with hd assms show ?thesis by (simp add: path_join_def last_segment_plain)
  next
    case False
    show ?thesis
    proof (cases "last a = CHR ''/''")
      case True
      with False have "a = butlast a @ [CHR ''/'']" by (metis append_butlast_last_id)
      then have "path_join a b = butlast a @ CHR ''/'' # b"
        using hd False True by (simp add: path_join_def)
      then show ?thesis using assms by (simp add: last_segment_slash last_segment_plain)
    next
      case F: False
      with False hd have "path_join a b = a @ CHR ''/'' # b" by (simp add: path_join_def)
      then show ?thesis using assms by (simp add: last_segment_slash last_segment_plain)
    qed
  qed
qed

lemma urlparse_s3_example:
  "urlparse ''s3://bucket/path/to/file.tif''
     = Inr \<lparr>scheme = ''s3'', netloc = ''bucket'', path = ''/path/to/file.tif''\<rparr>"
  by code_simp

subsection \<open>The thread pool\<close>

lemma run_chunk_Inr:
  "\<forall>x\<in>set xs. \<not> isl (snd (f x)) \<Longrightarrow>
   run_chunk f xs = (concat (map (fst \<circ> f) xs), Inr (map (projr \<circ> snd \<circ> f) xs))"
proof (induction xs)
  case Nil
  then show ?case by simp
next
  case (Cons x xs)
  obtain ev r where fx: "f x = (ev, r)" by (cases "f x")
  with Cons.prems obtain y where r: "r = Inr y" by (cases r) auto
  from Cons show ?case by (simp add: fx r)
qed

lemma run_chunk_Inl:
  "\<exists>x\<in>set xs. isl (snd (f x)) \<Longrightarrow> isl (snd (run_chunk f xs))"
proof (induction xs)
  case Nil
  then show ?case by simp
next
  case (Cons x xs)
  obtain ev r where fx: "f x = (ev, r)" by (cases "f x")
  show ?case
  proof (cases r)
    case (Inl e)
    then show ?thesis by (simp add: fx)
  next
    case (Inr y)
    with Cons.prems fx have "\<exists>x\<in>set xs. isl (snd (f x))" by auto
    from Cons.IH[OF this] show ?thesis
      by (cases "run_chunk f xs") (auto simp: fx Inr split: sum.splits)
  qed
qed

lemma gather_Inr:
  "\<forall>c\<in>set cs. \<not> isl (snd c) \<Longrightarrow>
   gather cs = (concat (map fst cs), Inr (concat (map (projr \<circ> snd) cs)))"
proof (induction cs)
  case Nil
  then show ?case by simp
next
  case (Cons c cs)
  obtain ev r where c: "c = (ev, r)" by (cases c)
  with Cons.prems obtain ys where r: "r = Inr ys" by (cases r) auto
  from Cons show ?case by (simp add: c r)
qed

lemma gather_Inl:
  "\<exists>c\<in>set cs. isl (snd c) \<Longrightarrow> isl (snd (gather cs))"
proof (induction cs)
  case Nil
  then show ?case by simp
next
  case (Cons c cs)
  obtain ev r where c: "c = (ev, r)" by (cases c)
  show ?case
  proof (cases r)
    case (Inl e)
    then show ?thesis by (cases "gather cs") (simp add: c)
  next
    case (Inr ys)
    with Cons.prems c have "\<exists>c\<in>set cs. isl (snd c)" by auto
    from Cons.IH[OF this] show ?thesis
      by (cases "gather cs") (auto simp: c Inr split: sum.splits)
  qed
qed

lemma concat_chunks: "0 < n \<Longrightarrow> concat (chunks n xs) = xs"
proof (induction n xs rule: chunks.induct)
  case (1 n xs)
  show ?case
  proof (cases "xs = []")
    case True
    then show ?thesis by (subst chunks.simps) simp
  next
    case False
    with 1 show ?thesis by (subst chunks.simps) simp
  qed
qed

lemma chunks_Nil: "chunks n [] = []"
  by (subst chunks.simps) simp

lemma chunksize_pos: "0 < len \<Longrightarrow> 0 < chunksize len"
  by (auto simp: chunksize_def pool_size_def)

lemma concat_pool_chunks: "concat (chunks (chunksize (length xs)) xs) = xs"
  by (cases "xs = []") (simp_all add: chunks_Nil concat_chunks chunksize_pos)

lemma concat_map_concat: "concat (map (\<lambda>c. concat (map g c)) cs) = concat (map g (concat cs))"
  by (induction cs) simp_all

lemma pool_map_Inr:
  assumes "\<forall>x\<in>set xs. \<not> isl (snd (f x))"
  shows "pool_map f xs = (concat (map (fst \<circ> f) xs), Inr (map (projr \<circ> snd \<circ> f) xs))"
proof -
  let ?cs = "chunks (chunksize (length xs)) xs"
  have cat: "concat ?cs = xs" by (rule concat_pool_chunks)
  have sub: "\<forall>c\<in>set ?cs. \<forall>x\<in>set c. \<not> isl (snd (f x))"
  proof (intro ballI)
    fix c x assume "c \<in> set ?cs" "x \<in> set c"
    then have "x \<in> set (concat ?cs)" by auto
    with cat assms show "\<not> isl (snd (f x))" by simp
  qed
  have each: "map (run_chunk f) ?cs
      = map (\<lambda>c. (concat (map (fst \<circ> f) c), Inr (map (projr \<circ> snd \<circ> f) c))) ?cs"
    using sub by (intro map_cong refl run_chunk_Inr) blast
  have "gather (map (run_chunk f) ?cs)
      = (concat (map (\<lambda>c. concat (map (fst \<circ> f) c)) ?cs),
         Inr (concat (map (map (projr \<circ> snd \<circ> f)) ?cs)))"
    unfolding each by (subst gather_Inr) (simp_all add: comp_def)
  also have "\<dots> = (concat (map (fst \<circ> f) (concat ?cs)), Inr (map (projr \<circ> snd \<circ> f) (concat ?cs)))"
    by (simp only: concat_map_concat map_concat)
  finally show ?thesis unfolding pool_map_def cat .
qed

lemma pool_map_Inl:
  assumes "x \<in> set xs" "isl (snd (f x))"
  shows "isl (snd (pool_map f xs))"
proof -
  let ?cs = "chunks (chunksize (length xs)) xs"
  have "x \<in> set (concat ?cs)" using assms(1) by (simp add: concat_pool_chunks)
  then obtain c where c: "c \<in> set ?cs" "x \<in> set c" by auto
  with assms(2) have "isl (snd (run_chunk f c))" by (intro run_chunk_Inl) blast
  with c(1) have "\<exists>r\<in>set (map (run_chunk f) ?cs). isl (snd r)" by auto
  then show ?thesis unfolding pool_map_def by (rule gather_Inl)
qed

lemma pool_map_cases:
  "pool_map f xs = (evs, Inr ys) \<Longrightarrow>
   (\<forall>x\<in>set xs. \<not> isl (snd (f x))) \<and> evs = concat (map (fst \<circ> f) xs)
     \<and> ys = map (projr \<circ> snd \<circ> f) xs"
proof -
  assume a: "pool_map f xs = (evs, Inr ys)"
  have ok: "\<forall>x\<in>set xs. \<not> isl (snd (f x))"
  proof (rule ccontr)
    assume "\<not> ?thesis"
    then obtain x where "x \<in> set xs" "isl (snd (f x))" by blast
    then have "isl (snd (pool_map f xs))" by (rule pool_map_Inl)
    with a show False by simp
  qed
  from pool_map_Inr[OF ok] a show ?thesis using ok by simp
qed

lemma run_chunk_events:
  "e \<in> set (fst (run_chunk f xs)) \<Longrightarrow> \<exists>x\<in>set xs. e \<in> set (fst (f x))"
proof (induction xs)
  case Nil
  then show ?case by simp
next
  case (Cons x xs)
  obtain ev r where fx: "f x = (ev, r)" by (cases "f x")
  obtain evs rs where rc: "run_chunk f xs = (evs, rs)" by (cases "run_chunk f xs")
  from Cons.prems have "e \<in> set ev \<or> e \<in> set evs"
    by (cases r; cases rs) (auto simp: fx rc)
  with Cons.IH fx rc show ?case by auto
qed

lemma gather_events:
  "e \<in> set (fst (gather cs)) \<Longrightarrow> \<exists>c\<in>set cs. e \<in> set (fst c)"
proof (induction cs)
  case Nil
  then show ?case by simp
next
  case (Cons c cs)
  obtain ev r where c: "c = (ev, r)" by (cases c)
  obtain evs rs where g: "gather cs = (evs, rs)" by (cases "gather cs")
  from Cons.prems have "e \<in> set ev \<or> e \<in> set evs" by (auto simp: c g)
  with Cons.IH c g show ?case by auto
qed

lemma pool_map_events:
  assumes "e \<in> set (fst (pool_map f xs))"
  shows "\<exists>x\<in>set xs. e \<in> set (fst (f x))"
proof -
  let ?cs = "chunks (chunksize (length xs)) xs"
  from gather_events[OF assms[unfolded pool_map_def]]
  obtain c where c: "c \<in> set ?cs" "e \<in> set (fst (run_chunk f c))" by auto
  from run_chunk_events[OF c(2)] obtain x where x: "x \<in> set c" "e \<in> set (fst (f x))" by blast
  from c(1) x(1) have "x \<in> set (concat ?cs)" by auto
  then have "x \<in> set xs" by (simp add: concat_pool_chunks)
  with x(2) show ?thesis by blast
qed

lemma run_chunk_error:
  "snd (run_chunk f xs) = Inl e \<Longrightarrow> \<exists>x\<in>set xs. snd (f x) = Inl e"
proof (induction xs)
  case Nil
  then show ?case by simp
next
  case (Cons x xs)
  obtain ev r where fx: "f x = (ev, r)" by (cases "f x")
  obtain evs rs where rc: "run_chunk f xs = (evs, rs)" by (cases "run_chunk f xs")
  from Cons.prems have "r = Inl e \<or> rs = Inl e"
    by (cases r; cases rs) (auto simp: fx rc)
  with Cons.IH fx rc show ?case by auto
qed

lemma gather_error:
  "snd (gather cs) = Inl e \<Longrightarrow> \<exists>c\<in>set cs. snd c = Inl e"
proof (induction cs)
  case Nil
  then show ?case by simp
next
  case (Cons c cs)
  obtain ev r where c: "c = (ev, r)" by (cases c)
  obtain evs rs where g: "gather cs = (evs, rs)" by (cases "gather cs")
  from Cons.prems have "r = Inl e \<or> rs = Inl e"
    by (cases r; cases rs) (auto simp: c g)
  with Cons.IH c g show ?case by auto
qed

lemma pool_map_error:
  assumes "snd (pool_map f xs) = Inl e"
  shows "\<exists>x\<in>set xs. snd (f x) = Inl e"
proof -
  let ?cs = "chunks (chunksize (length xs)) xs"
  from gather_error[OF assms[unfolded pool_map_def]]
  obtain c where c: "c \<in> set ?cs" "snd (run_chunk f c) = Inl e" by auto
  from run_chunk_error[OF c(2)] obtain x where x: "x \<in> set c" "snd (f x) = Inl e" by blast
  from c(1) x(1) have "x \<in> set (concat ?cs)" by auto
  then have "x \<in> set xs" by (simp add: concat_pool_chunks)
  with x(2) show ?thesis by blast
qed

lemma run_downloads_failing_batch:
  assumes "t \<in> set d" "isl (snd (download E t))"
  shows "\<exists>e'. snd (pool_map (download E) d) = Inl e'
           \<and> run_downloads E (d # ds) = (fst (pool_map (download E) d), Inl e')"
proof -
  from assms have "isl (snd (pool_map (download E) d))" by (rule pool_map_Inl)
  then obtain ev e' where "pool_map (download E) d = (ev, Inl e')"
    by (cases "pool_map (download E) d") (auto simp: isl_def)
  then show ?thesis by simp
qed

subsection \<open>The expansion of an item\<close>

lemma get_source_item_assets_isl:
  "isl (snd (get_source_item_assets E (dir, h))) \<longleftrightarrow> (\<exists>u. h = Some u \<and> source_get E u = Undecodable)"
  by (auto simp: get_source_item_assets_def Let_def split: option.splits response.splits)

lemma get_source_item_assets_length:
  "\<not> isl (snd (get_source_item_assets E (dir, href l))) \<Longrightarrow>
   length (projr (snd (get_source_item_assets E (dir, href l)))) = fetched_asset_count E l"
  by (auto simp: get_source_item_assets_def Let_def fetched_asset_count_def split: option.splits response.splits)

lemma get_source_item_assets_Decoded:
  "source_get E u = Decoded r \<Longrightarrow>
   get_source_item_assets E (item_path I, Some u)
     = ([EnsureDir (item_path I @ format_date (datetime r))],
        Inr (map (\<lambda>(key, h). (h, item_path I @ format_date (datetime r))) (assets r)))"
  by (simp add: get_source_item_assets_def asset_path_eq Let_def)

lemma get_source_item_assets_dest:
  "get_source_item_assets E (item_path I, h) = (ev, Inr ts) \<Longrightarrow> t \<in> set ts \<Longrightarrow>
   \<exists>d. snd t = item_path I @ format_date d"
  by (fastforce simp: get_source_item_assets_def Let_def asset_path_eq split: option.splits response.splits)

lemma expansion_result:
  assumes "download_source_and_labels E I = (ev, Inr bs)"
  shows "\<exists>h. assets_labels I = Some h
          \<and> bs = map (\<lambda>l. projr (snd (get_source_item_assets E (item_path I, href l)))) (source_links I)
                 @ [[(h, item_path I)]]"
    and "\<forall>l\<in>set (source_links I). \<not> isl (snd (get_source_item_assets E (item_path I, href l)))"
proof -
  let ?xs = "map (\<lambda>l. (item_path I, href l)) (source_links I)"
  obtain evs r where pm: "pool_map (get_source_item_assets E) ?xs = (evs, r)"
    by (cases "pool_map (get_source_item_assets E) ?xs")
  from assms pm obtain results where r: "r = Inr results"
    by (cases r) (auto simp: download_source_and_labels_def Let_def source_links_def)
  from pool_map_cases[OF pm[unfolded r]]
  have ok: "\<forall>x\<in>set ?xs. \<not> isl (snd (get_source_item_assets E x))"
    and res: "results = map (projr \<circ> snd \<circ> get_source_item_assets E) ?xs" by simp_all
  from ok show "\<forall>l\<in>set (source_links I). \<not> isl (snd (get_source_item_assets E (item_path I, href l)))"
    by simp
  from assms pm r res show "\<exists>h. assets_labels I = Some h
          \<and> bs = map (\<lambda>l. projr (snd (get_source_item_assets E (item_path I, href l)))) (source_links I)
                 @ [[(h, item_path I)]]"
    by (auto simp: download_source_and_labels_def Let_def source_links_def comp_def split: option.splits)
qed

lemma expansion_returns:
  assumes "assets_labels I = Some h"
    and "\<forall>l\<in>set (source_links I). \<forall>u. href l = Some u \<longrightarrow> source_get E u \<noteq> Undecodable"
  shows "\<exists>ev bs. download_source_and_labels E I = (ev, Inr bs)"
proof -
  let ?xs = "map (\<lambda>l. (item_path I, href l)) (source_links I)"
  have "\<forall>x\<in>set ?xs. \<not> isl (snd (get_source_item_assets E x))"
    using assms(2) by (auto simp: get_source_item_assets_isl)
  from pool_map_Inr[OF this] assms(1) show ?thesis
    by (simp add: download_source_and_labels_def source_links_def Let_def)
qed

lemma expansion_raises:
  assumes "l \<in> set (source_links I)" "href l = Some u" "source_get E u = Undecodable"
  shows "isl (snd (download_source_and_labels E I))"
proof -
  let ?xs = "map (\<lambda>l. (item_path I, href l)) (source_links I)"
  have "(item_path I, href l) \<in> set ?xs" using assms(1) by auto
  moreover have "isl (snd (get_source_item_assets E (item_path I, href l)))"
    using assms by (simp add: get_source_item_assets_isl)
  ultimately have "isl (snd (pool_map (get_source_item_assets E) ?xs))" by (rule pool_map_Inl)
  then show ?thesis
    by (cases "pool_map (get_source_item_assets E) ?xs")
       (auto simp: download_source_and_labels_def Let_def source_links_def split: sum.splits)
qed

lemma sum_list_length_concat: "length (concat xss) = sum_list (map length xss)"
  by (induction xss) simp_all

lemma get_source_item_assets_quiet:
  "e \<in> set (fst (get_source_item_assets E a)) \<Longrightarrow> quiet e"
  by (auto simp: get_source_item_assets_def Let_def split: option.splits response.splits)

lemma expansion_quiet:
  assumes "e \<in> set (fst (download_source_and_labels E f))"
  shows "quiet e"
proof -
  let ?xs = "map (\<lambda>l. (item_path f, href l)) (filter (\<lambda>l. rel l = ''source'') (item_links f))"
  obtain ev r where pm: "pool_map (get_source_item_assets E) ?xs = (ev, r)"
    by (cases "pool_map (get_source_item_assets E) ?xs")
  from assms have "e = EnsureDir (item_path f) \<or> e \<in> set ev"
    by (auto simp: download_source_and_labels_def Let_def pm split: sum.splits option.splits)
  then show ?thesis
  proof
    assume "e = EnsureDir (item_path f)"
    then show ?thesis by simp
  next
    assume "e \<in> set ev"
    then have "e \<in> set (fst (pool_map (get_source_item_assets E) ?xs))" by (simp add: pm)
    from pool_map_events[OF this] show ?thesis using get_source_item_assets_quiet by blast
  qed
qed

lemma get_source_item_assets_error:
  "snd (get_source_item_assets E a) = Inl e \<Longrightarrow> e = DecodeError"
  by (auto simp: get_source_item_assets_def Let_def split: option.splits response.splits)

lemma expansion_error:
  assumes "snd (download_source_and_labels E f) = Inl e"
  shows "e = DecodeError \<or> e = TypeError"
proof -
  let ?xs = "map (\<lambda>l. (item_path f, href l)) (filter (\<lambda>l. rel l = ''source'') (item_links f))"
  obtain ev r where pm: "pool_map (get_source_item_assets E) ?xs = (ev, r)"
    by (cases "pool_map (get_source_item_assets E) ?xs")
  show ?thesis
  proof (cases r)
    case (Inl e')
    with assms pm have "e' = e" by (simp add: download_source_and_labels_def Let_def)
    with Inl pm have "snd (pool_map (get_source_item_assets E) ?xs) = Inl e" by simp
    from pool_map_error[OF this] get_source_item_assets_error show ?thesis by blast
  next
    case (Inr bs)
    with assms pm show ?thesis
      by (auto simp: download_source_and_labels_def Let_def split: option.splits)
  qed
qed

lemma expansion_count_when_returned:
  assumes a: "download_source_and_labels E I = (ev, Inr bs)"
  shows "length (concat bs) = sum_list (map (fetched_asset_count E) (source_links I)) + 1"
    and "length bs = length (source_links I) + 1"
    and "\<exists>h. assets_labels I = Some h \<and> last bs = [(h, item_path I)]"
proof -
  from expansion_result(1)[OF a] obtain h where h: "assets_labels I = Some h"
    and bs: "bs = map (\<lambda>l. projr (snd (get_source_item_assets E (item_path I, href l)))) (source_links I)
                 @ [[(h, item_path I)]]" by blast
  have "map (\<lambda>l. length (projr (snd (get_source_item_assets E (item_path I, href l))))) (source_links I)
        = map (fetched_asset_count E) (source_links I)"
    using expansion_result(2)[OF a] by (intro map_cong refl get_source_item_assets_length) blast
  then have "sum_list (map (\<lambda>l. length (projr (snd (get_source_item_assets E (item_path I, href l))))) (source_links I))
        = sum_list (map (fetched_asset_count E) (source_links I))"
    by (rule arg_cong)
  then show "length (concat bs) = sum_list (map (fetched_asset_count E) (source_links I)) + 1"
    by (simp add: bs sum_list_length_concat comp_def)
  show "length bs = length (source_links I) + 1" by (simp add: bs)
  from h bs show "\<exists>h. assets_labels I = Some h \<and> last bs = [(h, item_path I)]" by simp
qed

subsection \<open>Traces and budgets\<close>

lemma pages_loaded_append: "pages_loaded (xs @ ys) = pages_loaded xs @ pages_loaded ys"
  by (induction xs rule: pages_loaded.induct) simp_all

lemma items_expanded_append: "items_expanded (xs @ ys) = items_expanded xs @ items_expanded ys"
  by (induction xs rule: items_expanded.induct) simp_all

lemma quiet_pages_loaded: "\<forall>e\<in>set evs. quiet e \<Longrightarrow> pages_loaded evs = []"
  by (induction evs rule: pages_loaded.induct) simp_all

lemma quiet_items_expanded: "\<forall>e\<in>set evs. quiet e \<Longrightarrow> items_expanded evs = []"
  by (induction evs rule: items_expanded.induct) simp_all

lemma quiet_budget: "\<forall>e\<in>set evs. quiet e \<Longrightarrow> budget b evs"
  by (induction b evs rule: budget.induct) simp_all

lemma budget_append:
  "budget b (xs @ ys) \<longleftrightarrow> budget b xs \<and> budget (b - length (items_expanded xs)) ys"
  by (induction b xs rule: budget.induct) auto

lemma budget_items: "budget b evs \<Longrightarrow> length (items_expanded evs) \<le> b"
  by (induction b evs rule: budget.induct) auto

subsection \<open>The state a walk starts from\<close>

lemma prepend_emit: "emit evs (prepend v w) = prepend v (emit evs w)"
  by (simp add: emit_def prepend_def)

lemma feature_loop_prepend:
  "feature_loop E c mx fs k (prepend v w) = map_exit (prepend v) (feature_loop E c mx fs k w)"
proof (induction fs arbitrary: k w)
  case Nil
  then show ?case by simp
next
  case (Cons f fs)
  show ?case
  proof (cases "matches_class c f")
    case False
    then show ?thesis by (simp add: Cons.IH)
  next
    case True
    obtain ev r where d: "download_source_and_labels E f = (ev, r)"
      by (cases "download_source_and_labels E f")
    show ?thesis
    proof (cases r)
      case (Inl e)
      then show ?thesis by (simp add: True d prepend_emit)
    next
      case (Inr bs)
      have *: "(emit (Getting (item_id f) # ev) (prepend v w))\<lparr>downloads := downloads (prepend v w) @ bs\<rparr>
          = prepend v ((emit (Getting (item_id f) # ev) w)\<lparr>downloads := downloads w @ bs\<rparr>)"
        by (simp add: emit_def prepend_def)
      show ?thesis by (simp add: True d Inr Let_def * Cons.IH)
    qed
  qed
qed

lemma get_items_prepend:
  "get_items n E uri c mx k (prepend v w)
     = map_outcome (prepend v) (get_items n E uri c mx k w)"
  and link_loop_prepend:
  "link_loop n E c mx k ls (prepend v w)
     = map_outcome (prepend v) (link_loop n E c mx k ls w)"
proof (induction n E uri c mx k w and n E c mx k ls w rule: get_items_link_loop.induct)
  case (1 n E uri c mx k w)
  show ?case
  proof (cases "page_get E uri")
    case RequestFails
    then show ?thesis by (simp add: get_items.simps prepend_emit)
  next
    case Undecodable
    then show ?thesis by (simp add: get_items.simps prepend_emit)
  next
    case (Decoded p)
    let ?fl = "feature_loop E c mx (case features p of None \<Rightarrow> [] | Some fs \<Rightarrow> fs) k (emit [Loading uri] w)"
    show ?thesis
    proof (cases ?fl)
      case (Exhausted k' w2)
      from 1[OF refl Decoded Exhausted] Exhausted Decoded show ?thesis
        by (simp add: get_items.simps[of n E uri c mx k] prepend_emit feature_loop_prepend Let_def)
    next
      case (Return w2)
      with Decoded show ?thesis
        by (simp add: get_items.simps[of n E uri c mx k] prepend_emit feature_loop_prepend Let_def)
    next
      case (Raise e w2)
      with Decoded show ?thesis
        by (simp add: get_items.simps[of n E uri c mx k] prepend_emit feature_loop_prepend Let_def)
    qed
  qed
next
  case (2 n E c mx k w)
  show ?case by simp
next
  case (3 n E c mx k l ls w)
  show ?case
  proof (cases "rel l = ''next'' \<and> href l \<noteq> None")
    case False
    then have "link_loop n E c mx k (l # ls) w0 = link_loop n E c mx k ls w0" for w0
      by (simp only: link_loop.simps if_False)
    with 3(3)[OF False] show ?thesis by simp
  next
    case True
    show ?thesis
    proof (cases n)
      case 0
      with True show ?thesis by simp
    next
      case (Suc m)
      note ih1 = 3(1)[OF True Suc]
      show ?thesis
      proof (cases "get_items m E (the (href l)) c mx k w")
        case (Returned w')
        from 3(2)[OF True Suc Returned] True Suc ih1 Returned show ?thesis by simp
      next
        case (Raised e w')
        with True Suc ih1 show ?thesis by simp
      qed
    qed
  qed
qed

lemma prepend_empty [simp]: "prepend w empty_walk = w"
  by (simp add: prepend_def empty_walk_def)

lemma walk_of_map_outcome: "walk_of (map_outcome g out) = g (walk_of out)"
  by (cases out) simp_all

lemma trace_prepend: "trace (prepend v w) = trace v @ trace w"
  by (simp add: prepend_def)

lemma call_get_items_frame:
  "call_get_items n E u c mx arg s =
     (case get_items n E u c mx 0 empty_walk of
        Raised e w0 \<Rightarrow>
          (Inl e,
           \<lparr>default_downloads = (case arg of None \<Rightarrow> default_downloads s @ downloads w0
                                  | Some _ \<Rightarrow> default_downloads s),
            stdout = stdout s @ trace w0\<rparr>)
      | Returned w0 \<Rightarrow>
          (Inr ((case arg of None \<Rightarrow> default_downloads s | Some ds \<Rightarrow> ds) @ downloads w0),
           \<lparr>default_downloads = (case arg of None \<Rightarrow> default_downloads s @ downloads w0
                                  | Some _ \<Rightarrow> default_downloads s),
            stdout = stdout s @ trace w0\<rparr>))"
proof -
  let ?acc = "case arg of None \<Rightarrow> default_downloads s | Some ds \<Rightarrow> ds"
  let ?w = "\<lparr>downloads = ?acc, trace = stdout s\<rparr>"
  have "?w = prepend ?w empty_walk" by simp
  then have "get_items n E u c mx 0 ?w
      = map_outcome (prepend ?w) (get_items n E u c mx 0 empty_walk)"
    using get_items_prepend[of n E u c mx 0 ?w empty_walk] by simp
  then show ?thesis
    by (cases arg; cases "get_items n E u c mx 0 empty_walk")
       (auto simp: call_get_items_def Let_def prepend_def)
qed

subsection \<open>The loop over the links\<close>

lemma link_loop_skip:
  "\<not> (rel l = ''next'' \<and> href l \<noteq> None) \<Longrightarrow>
   link_loop n E c mx k (l # ls) w = link_loop n E c mx k ls w"
  by (simp only: link_loop.simps if_False)

lemma next_hrefs_Nil [simp]: "next_hrefs [] = []"
  by (simp add: next_hrefs_def)

lemma next_hrefs_skip:
  "\<not> (rel l = ''next'' \<and> href l \<noteq> None) \<Longrightarrow> next_hrefs (l # ls) = next_hrefs ls"
  unfolding next_hrefs_def by (simp only: filter.simps if_False)

lemma next_hrefs_take:
  "rel l = ''next'' \<and> href l \<noteq> None \<Longrightarrow> next_hrefs (l # ls) = the (href l) # next_hrefs ls"
  by (simp add: next_hrefs_def)

lemma link_loop_follow_all:
  "link_loop (Suc m) E c mx k ls w = follow_all m E c mx k (next_hrefs ls) w"
proof (induction ls arbitrary: w)
  case Nil
  then show ?case by simp
next
  case (Cons l ls)
  show ?case
  proof (cases "rel l = ''next'' \<and> href l \<noteq> None")
    case False
    show ?thesis by (simp only: link_loop_skip[OF False] next_hrefs_skip[OF False] Cons.IH)
  next
    case True
    then show ?thesis
      by (simp add: next_hrefs_take Cons.IH split: outcome.splits)
  qed
qed

lemma link_loop_0:
  "link_loop 0 E c mx k ls w = (if next_hrefs ls = [] then Returned w else Raised RecursionError w)"
proof (induction ls)
  case Nil
  then show ?case by simp
next
  case (Cons l ls)
  show ?case
  proof (cases "rel l = ''next'' \<and> href l \<noteq> None")
    case False
    show ?thesis by (simp only: link_loop_skip[OF False] next_hrefs_skip[OF False] Cons.IH)
  next
    case True
    then show ?thesis by (simp add: next_hrefs_take)
  qed
qed

lemma link_loop_no_next:
  "next_hrefs ls = [] \<Longrightarrow> link_loop n E c mx k ls w = Returned w"
  by (cases n) (simp_all add: link_loop_0 link_loop_follow_all)

lemma link_loop_one_next:
  "next_hrefs ls = [u] \<Longrightarrow> link_loop (Suc m) E c mx k ls w = get_items m E u c mx k w"
  by (simp add: link_loop_follow_all split: outcome.splits)

lemma link_loop_trace:
  "\<exists>evs. trace (walk_of (link_loop n E c mx k ls w)) = trace w @ evs"
  using link_loop_prepend[of n E c mx k ls w empty_walk]
  by (simp add: walk_of_map_outcome trace_prepend)

subsection \<open>The loop over the features and one page\<close>

lemma feature_loop_no_return: "feature_loop E c None fs k w \<noteq> Return w'"
proof (induction fs arbitrary: k w)
  case Nil
  then show ?case by simp
next
  case (Cons f fs)
  then show ?case
    by (cases "download_source_and_labels E f")
       (auto simp: Let_def split: sum.splits)
qed

lemma feature_loop_summary:
  "\<exists>evs. trace (exit_walk (feature_loop E c mx fs k w)) = trace w @ evs \<and> pages_loaded evs = []
      \<and> (\<forall>kk. mx = Some kk \<and> k < kk \<longrightarrow> budget (nat (kk - k)) evs
            \<and> (\<forall>k' w'. feature_loop E c mx fs k w = Exhausted k' w'
                  \<longrightarrow> k' < kk \<and> k' = k + int (length (items_expanded evs))))"
proof (induction fs arbitrary: k w)
  case Nil
  show ?case by (rule exI[of _ "[]"]) simp
next
  case (Cons f fs)
  show ?case
  proof (cases "matches_class c f")
    case False
    with Cons.IH[of k w] show ?thesis by simp
  next
    case True
    obtain ev r where d: "download_source_and_labels E f = (ev, r)"
      by (cases "download_source_and_labels E f")
    have q: "\<forall>e\<in>set ev. quiet e" using expansion_quiet[of _ E f] by (simp add: d)
    let ?g = "Getting (item_id f) # ev"
    have pg: "pages_loaded ?g = []" using q by (simp add: quiet_pages_loaded)
    have ig: "items_expanded ?g = [item_id f]" using q by (simp add: quiet_items_expanded)
    have bg: "budget (nat (kk - k)) ?g" if "k < kk" for kk using q that by (simp add: quiet_budget)
    show ?thesis
    proof (cases r)
      case (Inl e)
      have fl: "feature_loop E c mx (f # fs) k w = Raise e (emit ?g w)" by (simp add: True d Inl)
      show ?thesis unfolding fl
      proof (intro exI[of _ ?g] conjI allI impI)
        show "trace (exit_walk (Raise e (emit ?g w))) = trace w @ ?g" by (simp add: emit_def)
        show "pages_loaded ?g = []" by (rule pg)
        show "budget (nat (kk - k)) ?g" if "mx = Some kk \<and> k < kk" for kk using that bg by blast
        show "k' < kk" if "Raise e (emit ?g w) = Exhausted k' w'" for kk k' w'
          using that by simp
        show "k' = k + int (length (items_expanded ?g))"
          if "Raise e (emit ?g w) = Exhausted k' w'" for k' w' using that by simp
      qed
    next
      case (Inr bs)
      let ?w' = "(emit ?g w)\<lparr>downloads := downloads w @ bs\<rparr>"
      have tw': "trace ?w' = trace w @ ?g" by (simp add: emit_def)
      show ?thesis
      proof (cases "mx \<noteq> None \<and> k + 1 \<ge> the mx")
        case stop: True
        then have fl: "feature_loop E c mx (f # fs) k w = Return ?w'"
          by (simp add: True d Inr Let_def)
        show ?thesis unfolding fl
        proof (intro exI[of _ ?g] conjI allI impI)
          show "trace (exit_walk (Return ?w')) = trace w @ ?g" by (simp add: emit_def)
          show "pages_loaded ?g = []" by (rule pg)
          show "budget (nat (kk - k)) ?g" if "mx = Some kk \<and> k < kk" for kk using that bg by blast
          show "k' < kk" if "Return ?w' = Exhausted k' w'" for kk k' w'
            using that by simp
          show "k' = k + int (length (items_expanded ?g))"
            if "Return ?w' = Exhausted k' w'" for k' w' using that by simp
        qed
      next
        case go: False
        then have fl: "feature_loop E c mx (f # fs) k w = feature_loop E c mx fs (k + 1) ?w'"
          by (cases mx) (auto simp: True d Inr Let_def)
        from Cons.IH[of "k + 1" ?w'] obtain evs where
          t: "trace (exit_walk (feature_loop E c mx fs (k + 1) ?w')) = trace ?w' @ evs"
          and p: "pages_loaded evs = []"
          and b: "\<And>kk. mx = Some kk \<Longrightarrow> k + 1 < kk \<Longrightarrow> budget (nat (kk - (k + 1))) evs
            \<and> (\<forall>k' w'. feature_loop E c mx fs (k + 1) ?w' = Exhausted k' w'
                  \<longrightarrow> k' < kk \<and> k' = k + 1 + int (length (items_expanded evs)))"
          by blast
        show ?thesis unfolding fl
        proof (intro exI[of _ "?g @ evs"] conjI allI impI)
          show "trace (exit_walk (feature_loop E c mx fs (k + 1) ?w')) = trace w @ ?g @ evs"
            using t tw' by simp
          show "pages_loaded (?g @ evs) = []" using pg p by (simp only: pages_loaded_append) simp
        next
          fix kk assume a: "mx = Some kk \<and> k < kk"
          with go have lt: "k + 1 < kk" by simp
          from b[OF conjunct1[OF a] lt] have b1: "budget (nat (kk - (k + 1))) evs" by blast
          have "nat (kk - k) - length (items_expanded ?g) = nat (kk - (k + 1))"
            by (simp only: ig) simp
          with b1 bg[of kk] a show "budget (nat (kk - k)) (?g @ evs)"
            by (simp only: budget_append)
        next
          fix kk k' w' assume a: "mx = Some kk \<and> k < kk"
            and e: "feature_loop E c mx fs (k + 1) ?w' = Exhausted k' w'"
          from a go have lt: "k + 1 < kk" by simp
          from e b[OF conjunct1[OF a] lt] have "k' < kk" "k' = k + 1 + int (length (items_expanded evs))"
            by blast+
          moreover have "length (items_expanded (?g @ evs)) = 1 + length (items_expanded evs)"
            by (simp only: items_expanded_append ig) simp
          ultimately have r: "k' < kk \<and> k' = k + int (length (items_expanded (?g @ evs)))" by simp
          from r show "k' < kk" by blast
          from r show "k' = k + int (length (items_expanded (?g @ evs)))" by blast
        qed
      qed
    qed
  qed
qed

lemma get_items_Decoded:
  "page_get E u = Decoded p \<Longrightarrow>
   get_items n E u c mx k w =
     (case feature_loop E c mx (case features p of None \<Rightarrow> [] | Some fs \<Rightarrow> fs) k (emit [Loading u] w) of
        Raise e w2 \<Rightarrow> Raised e w2
      | Return w2 \<Rightarrow> Returned w2
      | Exhausted k' w2 \<Rightarrow> link_loop n E c mx k' (case links p of None \<Rightarrow> [] | Some ls \<Rightarrow> ls) w2)"
  by (simp add: get_items.simps Let_def)

lemma page_step:
  assumes "page_get E u = Decoded p"
  obtains (stop) out evsF where
      "get_items n E u c mx k w = out"
      "trace (walk_of out) = trace w @ Loading u # evsF"
      "pages_loaded evsF = []"
      "mx \<noteq> None \<or> (\<exists>e w'. out = Raised e w')"
      "\<And>kk. mx = Some kk \<Longrightarrow> k < kk \<Longrightarrow> budget (nat (kk - k)) evsF"
  | (go) k' w2 evsF where
      "get_items n E u c mx k w
         = link_loop n E c mx k' (case links p of None \<Rightarrow> [] | Some ls \<Rightarrow> ls) w2"
      "trace w2 = trace w @ Loading u # evsF"
      "pages_loaded evsF = []"
      "\<And>kk. mx = Some kk \<Longrightarrow> k < kk \<Longrightarrow>
         budget (nat (kk - k)) evsF \<and> k' < kk \<and> k' = k + int (length (items_expanded evsF))"
proof -
  let ?fs = "case features p of None \<Rightarrow> [] | Some fs \<Rightarrow> fs"
  let ?w1 = "emit [Loading u] w"
  from feature_loop_summary[of E c mx ?fs k ?w1] obtain evsF where
    t: "trace (exit_walk (feature_loop E c mx ?fs k ?w1)) = trace ?w1 @ evsF"
    and p: "pages_loaded evsF = []"
    and b: "\<And>kk. mx = Some kk \<Longrightarrow> k < kk \<Longrightarrow> budget (nat (kk - k)) evsF
            \<and> (\<forall>k' w'. feature_loop E c mx ?fs k ?w1 = Exhausted k' w'
                  \<longrightarrow> k' < kk \<and> k' = k + int (length (items_expanded evsF)))"
    by blast
  have t1: "trace ?w1 = trace w @ [Loading u]" by (simp add: emit_def)
  show thesis
  proof (cases "feature_loop E c mx ?fs k ?w1")
    case (Exhausted k' w2)
    show ?thesis
    proof (rule go[of k' w2 evsF])
      show "get_items n E u c mx k w
         = link_loop n E c mx k' (case links p of None \<Rightarrow> [] | Some ls \<Rightarrow> ls) w2"
        by (simp add: get_items_Decoded[OF assms] Exhausted)
      show "trace w2 = trace w @ Loading u # evsF" using t t1 Exhausted by simp
      show "pages_loaded evsF = []" by (rule p)
      show "budget (nat (kk - k)) evsF \<and> k' < kk \<and> k' = k + int (length (items_expanded evsF))"
        if "mx = Some kk" "k < kk" for kk using b[OF that] Exhausted by blast
    qed
  next
    case (Return w2)
    show ?thesis
    proof (rule stop[of "Returned w2" evsF])
      show "get_items n E u c mx k w = Returned w2"
        by (simp add: get_items_Decoded[OF assms] Return)
      show "trace (walk_of (Returned w2)) = trace w @ Loading u # evsF" using t t1 Return by simp
      show "pages_loaded evsF = []" by (rule p)
      show "mx \<noteq> None \<or> (\<exists>e w'. Returned w2 = Raised e w')"
        using Return feature_loop_no_return[of E c ?fs k ?w1 w2] by (cases mx) auto
      show "budget (nat (kk - k)) evsF" if "mx = Some kk" "k < kk" for kk using b[OF that] by blast
    qed
  next
    case (Raise e w2)
    show ?thesis
    proof (rule stop[of "Raised e w2" evsF])
      show "get_items n E u c mx k w = Raised e w2"
        by (simp add: get_items_Decoded[OF assms] Raise)
      show "trace (walk_of (Raised e w2)) = trace w @ Loading u # evsF" using t t1 Raise by simp
      show "pages_loaded evsF = []" by (rule p)
      show "mx \<noteq> None \<or> (\<exists>e' w'. Raised e w2 = Raised e' w')" by simp
      show "budget (nat (kk - k)) evsF" if "mx = Some kk" "k < kk" for kk using b[OF that] by blast
    qed
  qed
qed

lemma get_items_trace:
  "\<exists>evs. trace (walk_of (get_items n E u c mx k w)) = trace w @ Loading u # evs"
proof (cases "page_get E u")
  case RequestFails
  then show ?thesis by (auto simp: get_items.simps emit_def)
next
  case Undecodable
  then show ?thesis by (auto simp: get_items.simps emit_def)
next
  case (Decoded p)
  show ?thesis
  proof (rule page_step[OF Decoded, of n c mx k w], goal_cases)
    case (1 out' evsF)
    then show ?case by auto
  next
    case (2 k' w2 evsF)
    from link_loop_trace[of n E c mx k' "case links p of None \<Rightarrow> [] | Some ls \<Rightarrow> ls" w2] 2(1,2)
    show ?case by auto
  qed
qed

lemma follow_all_loaded:
  "follow_all m E c mx k us w = Returned w' \<Longrightarrow>
   \<exists>evs. trace w' = trace w @ evs \<and> set us \<subseteq> set (pages_loaded evs)"
proof (induction us arbitrary: w)
  case Nil
  then show ?case by simp
next
  case (Cons u us)
  from Cons.prems obtain w1 where g: "get_items m E u c mx k w = Returned w1"
    and f: "follow_all m E c mx k us w1 = Returned w'"
    by (auto split: outcome.splits)
  from get_items_trace[of m E u c mx k w] g obtain evs1 where
    t1: "trace w1 = trace w @ Loading u # evs1" by auto
  from Cons.IH[OF f] obtain evs2 where t2: "trace w' = trace w1 @ evs2"
    and s: "set us \<subseteq> set (pages_loaded evs2)" by blast
  show ?case
  proof (intro exI[of _ "Loading u # evs1 @ evs2"] conjI)
    show "trace w' = trace w @ Loading u # evs1 @ evs2" using t1 t2 by simp
    show "set (u # us) \<subseteq> set (pages_loaded (Loading u # evs1 @ evs2))"
      using s by (auto simp: pages_loaded_append)
  qed
qed

subsection \<open>Chains of pages\<close>

lemma chain_Nil:
  "chain E u [] \<Longrightarrow>
   \<exists>p. page_get E u = Decoded p \<and> next_hrefs (case links p of None \<Rightarrow> [] | Some ls \<Rightarrow> ls) = []"
  by (cases "page_get E u") auto

lemma chain_Cons:
  "chain E u (v # vs) \<Longrightarrow>
   \<exists>p. page_get E u = Decoded p \<and> next_hrefs (case links p of None \<Rightarrow> [] | Some ls \<Rightarrow> ls) = [v]
       \<and> chain E v vs"
  by (cases "page_get E u") auto

lemma chain_walk:
  assumes "chain E u vs" "length vs \<le> n"
  shows "\<exists>out evs. get_items n E u c mx k w = out \<and> trace (walk_of out) = trace w @ evs
            \<and> (\<exists>j. pages_loaded evs = take (Suc j) (u # vs))
            \<and> (mx = None \<and> (\<exists>w'. out = Returned w') \<longrightarrow> pages_loaded evs = u # vs)
            \<and> (\<forall>kk. mx = Some kk \<and> k < kk \<longrightarrow> budget (nat (kk - k)) evs)"
  using assms
proof (induction vs arbitrary: u n k w)
  case Nil
  from chain_Nil[OF Nil(1)] obtain p where p: "page_get E u = Decoded p"
    and nx: "next_hrefs (case links p of None \<Rightarrow> [] | Some ls \<Rightarrow> ls) = []" by blast
  have fin: ?case if g: "get_items n E u c mx k w = out"
    and t: "trace (walk_of out) = trace w @ Loading u # evsF"
    and pl: "pages_loaded evsF = []"
    and b: "\<And>kk. mx = Some kk \<Longrightarrow> k < kk \<Longrightarrow> budget (nat (kk - k)) evsF" for out evsF
  proof (intro exI[of _ out] exI[of _ "Loading u # evsF"] conjI allI impI)
    show "get_items n E u c mx k w = out" by (rule g)
    show "trace (walk_of out) = trace w @ Loading u # evsF" by (rule t)
    show "\<exists>j. pages_loaded (Loading u # evsF) = take (Suc j) [u]" using pl by simp
    show "pages_loaded (Loading u # evsF) = [u]" using pl by simp
    show "budget (nat (kk - k)) (Loading u # evsF)" if "mx = Some kk \<and> k < kk" for kk
      using b[of kk] that by simp
  qed
  show ?case
  proof (rule page_step[OF p, of n c mx k w], goal_cases)
    case stop: (1 out evsF)
    from fin[OF stop(1,2,3)] stop(5) show ?thesis by blast
  next
    case go: (2 k' w2 evsF)
    have "get_items n E u c mx k w = Returned w2"
      using go(1) by (simp add: link_loop_no_next[OF nx])
    from fin[OF this, of evsF] go(2,3,4) show ?thesis by simp
  qed
next
  case (Cons v vs)
  from chain_Cons[OF Cons.prems(1)] obtain p where p: "page_get E u = Decoded p"
    and nx: "next_hrefs (case links p of None \<Rightarrow> [] | Some ls \<Rightarrow> ls) = [v]"
    and ch: "chain E v vs" by blast
  from Cons.prems(2) obtain m where n: "n = Suc m" and m: "length vs \<le> m" by (cases n) auto
  show ?case
  proof (rule page_step[OF p, of n c mx k w], goal_cases)
    case stop: (1 out evsF)
    show ?thesis
    proof (intro exI[of _ out] exI[of _ "Loading u # evsF"] conjI allI impI)
      show "get_items n E u c mx k w = out" by (rule stop(1))
      show "trace (walk_of out) = trace w @ Loading u # evsF" by (rule stop(2))
      show "\<exists>j. pages_loaded (Loading u # evsF) = take (Suc j) (u # v # vs)"
        using stop(3) by (intro exI[of _ 0]) simp
      show "pages_loaded (Loading u # evsF) = u # v # vs" if "mx = None \<and> (\<exists>w'. out = Returned w')"
        using that stop(4) by auto
      show "budget (nat (kk - k)) (Loading u # evsF)" if "mx = Some kk \<and> k < kk" for kk
        using stop(5)[of kk] that by simp
    qed
  next
    case go: (2 k' w2 evsF)
    have g: "get_items n E u c mx k w = get_items m E v c mx k' w2"
      using go(1) by (simp add: n link_loop_one_next[OF nx])
    from Cons.IH[OF ch m, of k' w2] obtain out evs2 where
      o: "get_items m E v c mx k' w2 = out"
      and t: "trace (walk_of out) = trace w2 @ evs2"
      and j: "\<exists>j. pages_loaded evs2 = take (Suc j) (v # vs)"
      and full: "mx = None \<and> (\<exists>w'. out = Returned w') \<longrightarrow> pages_loaded evs2 = v # vs"
      and b: "\<And>kk. mx = Some kk \<Longrightarrow> k' < kk \<Longrightarrow> budget (nat (kk - k')) evs2"
      by blast
    from j obtain j' where j': "pages_loaded evs2 = take (Suc j') (v # vs)" by blast
    have pl: "pages_loaded (Loading u # evsF @ evs2) = u # pages_loaded evs2"
      using go(3) by (simp add: pages_loaded_append)
    show ?thesis
    proof (intro exI[of _ out] exI[of _ "Loading u # evsF @ evs2"] conjI allI impI)
      show "get_items n E u c mx k w = out" using g o by simp
      show "trace (walk_of out) = trace w @ Loading u # evsF @ evs2" using t go(2) by simp
      show "\<exists>j. pages_loaded (Loading u # evsF @ evs2) = take (Suc j) (u # v # vs)"
        using pl j' by (intro exI[of _ "Suc j'"]) simp
      show "pages_loaded (Loading u # evsF @ evs2) = u # v # vs"
        if "mx = None \<and> (\<exists>w'. out = Returned w')" using that full pl by simp
      show "budget (nat (kk - k)) (Loading u # evsF @ evs2)" if a: "mx = Some kk \<and> k < kk" for kk
      proof -
        from go(4)[of kk] a have b1: "budget (nat (kk - k)) evsF" and lt: "k' < kk"
          and k': "k' = k + int (length (items_expanded evsF))" by blast+
        from b[of kk] a lt have b2: "budget (nat (kk - k')) evs2" by blast
        have "nat (kk - k) - length (items_expanded evsF) = nat (kk - k')" using k' by simp
        with b1 b2 a show ?thesis by (simp add: budget_append)
      qed
    qed
  qed
qed

lemma chain_unique: "chain E u vs \<Longrightarrow> chain E u vs' \<Longrightarrow> vs = vs'"
proof (induction vs arbitrary: u vs')
  case Nil
  then show ?case by (cases vs'; cases "page_get E u") auto
next
  case (Cons v vs)
  from chain_Cons[OF Cons.prems(1)] obtain p where p: "page_get E u = Decoded p"
    "next_hrefs (case links p of None \<Rightarrow> [] | Some ls \<Rightarrow> ls) = [v]" "chain E v vs" by blast
  with Cons.prems(2) obtain vs'' where "vs' = v # vs''" "chain E v vs''"
    by (cases vs') auto
  with Cons.IH[OF p(3)] show ?case by simp
qed

lemma chain_suffix: "chain E u vs \<Longrightarrow> v \<in> set vs \<Longrightarrow> \<exists>ws. chain E v ws \<and> length ws < length vs"
proof (induction vs arbitrary: u)
  case Nil
  then show ?case by simp
next
  case (Cons a vs)
  from chain_Cons[OF Cons.prems(1)] have ch: "chain E a vs" by blast
  show ?case
  proof (cases "v = a")
    case True
    with ch show ?thesis by auto
  next
    case False
    with Cons.prems(2) have "v \<in> set vs" by simp
    from Cons.IH[OF ch this] show ?thesis by auto
  qed
qed

lemma chain_distinct: "chain E u vs \<Longrightarrow> distinct (u # vs)"
proof (induction vs arbitrary: u)
  case Nil
  then show ?case by simp
next
  case (Cons v vs)
  from chain_Cons[OF Cons.prems] have ch: "chain E v vs" by blast
  have "u \<notin> set (v # vs)"
  proof
    assume "u \<in> set (v # vs)"
    from chain_suffix[OF Cons.prems this] obtain ws where
      "chain E u ws" "length ws < length (v # vs)" by blast
    with chain_unique[OF Cons.prems, of ws] show False by auto
  qed
  with Cons.IH[OF ch] show ?case by simp
qed

lemma example_chain: "chain example_env ''p1'' [''p2'']"
  by (simp add: example_env_def next_hrefs_def)

subsection \<open>Catalogs without branching pages\<close>

lemma single_next_walk:
  assumes sn: "\<forall>u p. page_get E u = Decoded p \<longrightarrow>
                 length (next_hrefs (case links p of None \<Rightarrow> [] | Some ls \<Rightarrow> ls)) \<le> 1"
  shows "k < kk \<Longrightarrow> get_items n E u c (Some kk) k w = out \<Longrightarrow>
         \<exists>evs. trace (walk_of out) = trace w @ evs \<and> budget (nat (kk - k)) evs"
proof (induction n arbitrary: u k w out rule: less_induct)
  case (less n)
  note lt = less.prems(1) and g = less.prems(2)
  have pos: "0 < nat (kk - k)" using lt by simp
  show ?case
  proof (cases "page_get E u")
    case RequestFails
    with g have "trace (walk_of out) = trace w @ [Loading u]"
      by (auto simp: get_items.simps emit_def)
    with pos show ?thesis by (intro exI[of _ "[Loading u]"]) simp
  next
    case Undecodable
    with g have "trace (walk_of out) = trace w @ [Loading u]"
      by (auto simp: get_items.simps emit_def)
    with pos show ?thesis by (intro exI[of _ "[Loading u]"]) simp
  next
    case (Decoded p)
    let ?ls = "case links p of None \<Rightarrow> [] | Some ls \<Rightarrow> ls"
    show ?thesis
    proof (rule page_step[OF Decoded, of n c "Some kk" k w], goal_cases)
      case stop: (1 out' evsF)
      from stop(1) g have "out' = out" by simp
      with stop(2) stop(5)[OF refl lt] pos show ?case
        by (intro exI[of _ "Loading u # evsF"]) simp
    next
      case go: (2 k' w2 evsF)
      from go(4)[OF refl lt] have b1: "budget (nat (kk - k)) evsF" and lt': "k' < kk"
        and k': "k' = k + int (length (items_expanded evsF))" by blast+
      from go(1) g have ll: "link_loop n E c (Some kk) k' ?ls w2 = out" by simp
      from sn[rule_format, OF Decoded] consider "next_hrefs ?ls = []" | v where "next_hrefs ?ls = [v]"
        by (cases "next_hrefs ?ls") (auto simp: length_Suc_conv)
      then show ?case
      proof cases
        case 1
        with ll have "out = Returned w2" by (simp add: link_loop_no_next)
        with go(2) b1 pos show ?thesis by (intro exI[of _ "Loading u # evsF"]) simp
      next
        case 2
        show ?thesis
        proof (cases n)
          case 0
          with ll 2 have "out = Raised RecursionError w2" by (simp add: link_loop_0)
          with go(2) b1 pos show ?thesis by (intro exI[of _ "Loading u # evsF"]) simp
        next
          case (Suc m)
          with ll 2 have "get_items m E v c (Some kk) k' w2 = out"
            by (simp add: link_loop_one_next)
          from less.IH[OF _ lt' this] Suc obtain evs2 where
            t: "trace (walk_of out) = trace w2 @ evs2" and b2: "budget (nat (kk - k')) evs2" by auto
          have "nat (kk - k) - length (items_expanded evsF) = nat (kk - k')" using k' by simp
          with b1 b2 pos have "budget (nat (kk - k)) (Loading u # evsF @ evs2)"
            by (simp add: budget_append)
          with t go(2) show ?thesis by (intro exI[of _ "Loading u # evsF @ evs2"]) simp
        qed
      qed
    qed
  qed
qed

lemma example_single_next:
  "page_get example_env u = Decoded p \<Longrightarrow>
   length (next_hrefs (case links p of None \<Rightarrow> [] | Some ls \<Rightarrow> ls)) \<le> 1"
  by (auto simp: example_env_def next_hrefs_def split: if_splits)

subsection \<open>The walk over a chain as one loop\<close>

lemma step_pages_append: "step_pages (xs @ ys) = step_pages xs @ step_pages ys"
  by (induction xs rule: step_pages.induct) simp_all

lemma step_items_append: "step_items (xs @ ys) = step_items xs @ step_items ys"
  by (induction xs rule: step_items.induct) simp_all

lemma step_pages_Items: "step_pages (map Item fs) = []"
  by (induction fs) simp_all

lemma step_items_Items: "step_items (map Item fs) = fs"
  by (induction fs) simp_all

lemma step_pages_chain: "step_pages (chain_steps E c us) = us"
  by (induction us) (simp_all add: chain_steps_def step_pages_append step_pages_Items)

lemma step_items_chain: "step_items (chain_steps E c us) = chain_items E c us"
  by (induction us)
     (simp_all add: chain_steps_def chain_items_def step_items_append step_items_Items)

lemma flat_items:
  "flat_walk E mx k (map Item (filter (matches_class c) fs) @ rest) w =
     (case feature_loop E c mx fs k w of
        Raise e w2 \<Rightarrow> Raised e w2
      | Return w2 \<Rightarrow> Returned w2
      | Exhausted k' w2 \<Rightarrow> flat_walk E mx k' rest w2)"
proof (induction fs arbitrary: k w)
  case Nil
  then show ?case by simp
next
  case (Cons f fs)
  show ?case
  proof (cases "matches_class c f")
    case False
    then show ?thesis by (simp add: Cons.IH)
  next
    case True
    obtain ev r where d: "download_source_and_labels E f = (ev, r)"
      by (cases "download_source_and_labels E f")
    show ?thesis
    proof (cases r)
      case (Inl e)
      then show ?thesis by (simp add: True d)
    next
      case (Inr bs)
      then show ?thesis by (simp add: True d Let_def Cons.IH)
    qed
  qed
qed

lemma chain_steps_Cons:
  "chain_steps E c (u # us)
     = Page u # map Item (filter (matches_class c) (page_features E u)) @ chain_steps E c us"
  by (simp add: chain_steps_def)

lemma chain_refines:
  "chain E u vs \<Longrightarrow> length vs \<le> n \<Longrightarrow>
   get_items n E u c mx k w = flat_walk E mx k (chain_steps E c (u # vs)) w"
proof (induction vs arbitrary: u n k w)
  case Nil
  from chain_Nil[OF Nil(1)] obtain p where p: "page_get E u = Decoded p"
    and nx: "next_hrefs (case links p of None \<Rightarrow> [] | Some ls \<Rightarrow> ls) = []" by blast
  have pf: "page_features E u = (case features p of None \<Rightarrow> [] | Some fs \<Rightarrow> fs)"
    by (simp add: page_features_def p)
  have "chain_steps E c [u] = Page u # map Item (filter (matches_class c) (page_features E u)) @ []"
    by (simp add: chain_steps_def)
  then show ?case
    by (simp only: flat_walk.simps flat_items get_items_Decoded[OF p] pf)
       (simp add: link_loop_no_next[OF nx] split: loop_exit.splits)
next
  case (Cons v vs)
  from chain_Cons[OF Cons.prems(1)] obtain p where p: "page_get E u = Decoded p"
    and nx: "next_hrefs (case links p of None \<Rightarrow> [] | Some ls \<Rightarrow> ls) = [v]"
    and ch: "chain E v vs" by blast
  from Cons.prems(2) obtain m where n: "n = Suc m" and m: "length vs \<le> m" by (cases n) auto
  have pf: "page_features E u = (case features p of None \<Rightarrow> [] | Some fs \<Rightarrow> fs)"
    by (simp add: page_features_def p)
  have ih: "get_items m E v c mx k' w2 = flat_walk E mx k' (chain_steps E c (v # vs)) w2" for k' w2
    by (rule Cons.IH[OF ch m])
  show ?case
    by (simp only: chain_steps_Cons[of E c u] flat_walk.simps flat_items get_items_Decoded[OF p] pf)
       (simp add: n link_loop_one_next[OF nx] ih split: loop_exit.splits)
qed

lemma flat_walk_trace:
  "\<exists>evs. trace (walk_of (flat_walk E mx k ss w)) = trace w @ evs"
proof (induction E mx k ss w rule: flat_walk.induct)
  case (1 E mx k w)
  then show ?case by simp
next
  case (2 E mx k u ss w)
  then show ?case by (auto simp: emit_def)
next
  case (3 E mx k f ss w)
  obtain ev r where d: "download_source_and_labels E f = (ev, r)"
    by (cases "download_source_and_labels E f")
  show ?case
  proof (cases r)
    case (Inl e)
    then show ?thesis by (simp add: d emit_def)
  next
    case (Inr bs)
    show ?thesis
    proof (cases "mx \<noteq> None \<and> k + 1 \<ge> the mx")
      case True
      then show ?thesis by (simp add: d Inr Let_def emit_def)
    next
      case False
      from 3[OF d[symmetric] Inr refl False] False show ?thesis
        by (cases mx) (auto simp: d Inr Let_def emit_def)
    qed
  qed
qed

lemma expansion_events_quiet:
  "download_source_and_labels E f = (ev, r) \<Longrightarrow> \<forall>e\<in>set ev. quiet e"
  using expansion_quiet[of _ E f] by simp

lemma flat_full:
  "flat_walk E mx k ss w = Returned w' \<Longrightarrow> trace w' = trace w @ evs \<Longrightarrow>
   mx = None \<or> k + int (length (items_expanded evs)) < the mx \<Longrightarrow>
   pages_loaded evs = step_pages ss \<and> items_expanded evs = map item_id (step_items ss)"
proof (induction ss arbitrary: k w evs)
  case Nil
  then show ?case by simp
next
  case (Cons s ss)
  show ?case
  proof (cases s)
    case (Page u)
    let ?w1 = "emit [Loading u] w"
    from Cons.prems(1) Page have f: "flat_walk E mx k ss ?w1 = Returned w'" by simp
    from flat_walk_trace[of E mx k ss ?w1] f obtain evs2 where
      t2: "trace w' = trace ?w1 @ evs2" by auto
    with Cons.prems(2) have e: "evs = Loading u # evs2" by (simp add: emit_def)
    with Cons.prems(3) have "mx = None \<or> k + int (length (items_expanded evs2)) < the mx" by simp
    from Cons.IH[OF f t2 this] e Page show ?thesis by simp
  next
    case (Item f)
    obtain ev r where d: "download_source_and_labels E f = (ev, r)"
      by (cases "download_source_and_labels E f")
    have q: "\<forall>e\<in>set ev. quiet e" by (rule expansion_events_quiet[OF d])
    let ?g = "Getting (item_id f) # ev"
    let ?w1 = "(emit ?g w)\<lparr>downloads := downloads w @ projr r\<rparr>"
    from Cons.prems(1) Item d obtain bs where r: "r = Inr bs" by (cases r) auto
    have ig: "items_expanded ?g = [item_id f]" using q by (simp add: quiet_items_expanded)
    have pg: "pages_loaded ?g = []" using q by (simp add: quiet_pages_loaded)
    show ?thesis
    proof (cases "mx \<noteq> None \<and> k + 1 \<ge> the mx")
      case True
      with Cons.prems(1) Item d r have "w' = ?w1" by (simp add: Let_def)
      with Cons.prems(2) have "evs = ?g" by (simp add: emit_def)
      with Cons.prems(3) True ig show ?thesis by (auto simp del: items_expanded.simps)
    next
      case False
      with Cons.prems(1) Item d r have f1: "flat_walk E mx (k + 1) ss ?w1 = Returned w'"
        by (cases mx) (auto simp: Let_def)
      from flat_walk_trace[of E mx "k + 1" ss ?w1] f1 obtain evs2 where
        t2: "trace w' = trace ?w1 @ evs2" by auto
      with Cons.prems(2) have e: "evs = ?g @ evs2" by (simp add: emit_def)
      have "length (items_expanded evs) = 1 + length (items_expanded evs2)"
        by (simp only: e items_expanded_append ig) simp
      with Cons.prems(3) have "mx = None \<or> k + 1 + int (length (items_expanded evs2)) < the mx"
        by auto
      from Cons.IH[OF f1 t2 this] have "pages_loaded evs2 = step_pages ss"
        "items_expanded evs2 = map item_id (step_items ss)" by blast+
      then show ?thesis
        by (simp only: e Item pages_loaded_append items_expanded_append ig pg) simp
    qed
  qed
qed

lemma flat_capped:
  "k < kk \<Longrightarrow>
   \<forall>f\<in>set (take (nat (kk - k)) (step_items ss)). \<not> isl (snd (download_source_and_labels E f)) \<Longrightarrow>
   \<exists>w' evs. flat_walk E (Some kk) k ss w = Returned w'
     \<and> downloads w' = downloads w @ concat (map (expand_batches E) (take (nat (kk - k)) (step_items ss)))
     \<and> trace w' = trace w @ evs
     \<and> items_expanded evs = map item_id (take (nat (kk - k)) (step_items ss))"
proof (induction ss arbitrary: k w)
  case Nil
  then show ?case by simp
next
  case (Cons s ss)
  show ?case
  proof (cases s)
    case (Page u)
    let ?w1 = "emit [Loading u] w"
    from Cons.prems(2) Page
    have ok: "\<forall>f\<in>set (take (nat (kk - k)) (step_items ss)). \<not> isl (snd (download_source_and_labels E f))"
      by simp
    from Cons.IH[OF Cons.prems(1) ok, of ?w1] obtain w' evs where
      f: "flat_walk E (Some kk) k ss ?w1 = Returned w'"
      and dl: "downloads w' = downloads ?w1 @ concat (map (expand_batches E) (take (nat (kk - k)) (step_items ss)))"
      and t: "trace w' = trace ?w1 @ evs"
      and i: "items_expanded evs = map item_id (take (nat (kk - k)) (step_items ss))" by blast
    show ?thesis
    proof (intro exI[of _ w'] exI[of _ "Loading u # evs"] conjI)
      show "flat_walk E (Some kk) k (s # ss) w = Returned w'" using f Page by simp
      show "downloads w' = downloads w @ concat (map (expand_batches E) (take (nat (kk - k)) (step_items (s # ss))))"
        using dl Page by (simp add: emit_def)
      show "trace w' = trace w @ Loading u # evs" using t by (simp add: emit_def)
      show "items_expanded (Loading u # evs) = map item_id (take (nat (kk - k)) (step_items (s # ss)))"
        using i Page by simp
    qed
  next
    case (Item f)
    from Cons.prems(1) obtain r where r: "nat (kk - k) = Suc r" and r': "r = nat (kk - (k + 1))"
      by (cases "nat (kk - k)") auto
    have tk: "take (nat (kk - k)) (step_items (s # ss)) = f # take r (step_items ss)"
      by (simp add: Item r)
    obtain ev res where d: "download_source_and_labels E f = (ev, res)"
      by (cases "download_source_and_labels E f")
    from Cons.prems(2) tk d obtain bs where res: "res = Inr bs" by (cases res) auto
    have eb: "expand_batches E f = bs" by (simp add: expand_batches_def d res)
    have q: "\<forall>e\<in>set ev. quiet e" by (rule expansion_events_quiet[OF d])
    let ?g = "Getting (item_id f) # ev"
    let ?w1 = "(emit ?g w)\<lparr>downloads := downloads w @ bs\<rparr>"
    have ig: "items_expanded ?g = [item_id f]" using q by (simp add: quiet_items_expanded)
    show ?thesis
    proof (cases "k + 1 \<ge> kk")
      case True
      with Cons.prems(1) have r0: "r = 0" using r' by simp
      show ?thesis
      proof (intro exI[of _ ?w1] exI[of _ ?g] conjI)
        show "flat_walk E (Some kk) k (s # ss) w = Returned ?w1"
          using True by (simp add: Item d res Let_def)
        show "downloads ?w1 = downloads w @ concat (map (expand_batches E) (take (nat (kk - k)) (step_items (s # ss))))"
          by (simp only: tk r0) (simp add: eb emit_def)
        show "trace ?w1 = trace w @ ?g" by (simp add: emit_def)
        show "items_expanded ?g = map item_id (take (nat (kk - k)) (step_items (s # ss)))"
          by (simp only: tk r0 ig) simp
      qed
    next
      case False
      then have lt: "k + 1 < kk" by simp
      from Cons.prems(2) tk
      have ok: "\<forall>f\<in>set (take (nat (kk - (k + 1))) (step_items ss)). \<not> isl (snd (download_source_and_labels E f))"
        by (simp add: r')
      from Cons.IH[OF lt ok, of ?w1] obtain w' evs where
        f1: "flat_walk E (Some kk) (k + 1) ss ?w1 = Returned w'"
        and dl: "downloads w' = downloads ?w1 @ concat (map (expand_batches E) (take r (step_items ss)))"
        and t: "trace w' = trace ?w1 @ evs"
        and i: "items_expanded evs = map item_id (take r (step_items ss))"
        unfolding r'[symmetric] by blast
      show ?thesis
      proof (intro exI[of _ w'] exI[of _ "?g @ evs"] conjI)
        show "flat_walk E (Some kk) k (s # ss) w = Returned w'"
          using False f1 by (simp add: Item d res Let_def)
        show "downloads w' = downloads w @ concat (map (expand_batches E) (take (nat (kk - k)) (step_items (s # ss))))"
          by (simp only: tk) (simp add: dl eb emit_def)
        show "trace w' = trace w @ ?g @ evs" using t by (simp add: emit_def)
        show "items_expanded (?g @ evs) = map item_id (take (nat (kk - k)) (step_items (s # ss)))"
          by (simp only: tk items_expanded_append ig i) simp
      qed
    qed
  qed
qed

lemma flat_raised:
  "flat_walk E mx k ss w = Raised e w' \<Longrightarrow>
   \<exists>f\<in>set (step_items ss). snd (download_source_and_labels E f) = Inl e"
proof (induction ss arbitrary: k w)
  case Nil
  then show ?case by simp
next
  case (Cons s ss)
  show ?case
  proof (cases s)
    case (Page u)
    with Cons.prems have "flat_walk E mx k ss (emit [Loading u] w) = Raised e w'" by simp
    from Cons.IH[OF this] Page show ?thesis by simp
  next
    case (Item f)
    obtain ev res where d: "download_source_and_labels E f = (ev, res)"
      by (cases "download_source_and_labels E f")
    show ?thesis
    proof (cases res)
      case (Inl e')
      with Cons.prems Item d have "e' = e" by simp
      with Inl d Item show ?thesis by simp
    next
      case (Inr bs)
      let ?w1 = "(emit (Getting (item_id f) # ev) w)\<lparr>downloads := downloads w @ bs\<rparr>"
      from Cons.prems Item d Inr have "flat_walk E mx (k + 1) ss ?w1 = Raised e w'"
        by (auto simp: Let_def split: if_splits)
      from Cons.IH[OF this] Item show ?thesis by simp
    qed
  qed
qed

lemma flat_raised_capped:
  "flat_walk E (Some kk) k ss w = Raised e w' \<Longrightarrow> k < kk \<Longrightarrow>
   \<exists>f\<in>set (take (nat (kk - k)) (step_items ss)). snd (download_source_and_labels E f) = Inl e"
proof (induction ss arbitrary: k w)
  case Nil
  then show ?case by simp
next
  case (Cons s ss)
  show ?case
  proof (cases s)
    case (Page u)
    with Cons.prems have "flat_walk E (Some kk) k ss (emit [Loading u] w) = Raised e w'" by simp
    from Cons.IH[OF this Cons.prems(2)] Page show ?thesis by simp
  next
    case (Item f)
    from Cons.prems(2) obtain r where r: "nat (kk - k) = Suc r" and r': "r = nat (kk - (k + 1))"
      by (cases "nat (kk - k)") auto
    have tk: "take (nat (kk - k)) (step_items (s # ss)) = f # take r (step_items ss)"
      by (simp add: Item r)
    obtain ev res where d: "download_source_and_labels E f = (ev, res)"
      by (cases "download_source_and_labels E f")
    show ?thesis
    proof (cases res)
      case (Inl e')
      with Cons.prems Item d have "e' = e" by simp
      with Inl d show ?thesis by (simp only: tk) simp
    next
      case (Inr bs)
      let ?w1 = "(emit (Getting (item_id f) # ev) w)\<lparr>downloads := downloads w @ bs\<rparr>"
      from Cons.prems(1) Item d Inr have f1: "flat_walk E (Some kk) (k + 1) ss ?w1 = Raised e w'"
        and lt: "k + 1 < kk"
        by (auto simp: Let_def split: if_splits)
      from Cons.IH[OF f1 lt] show ?thesis by (simp only: tk r') auto
    qed
  qed
qed

section \<open>The claims\<close>

subsection \<open>The class filter\<close>

text \<open>
  Claim C1. For every item \<open>I\<close> and class filter \<open>C\<close>, the match test of the walker is true
  exactly when \<open>C\<close> is unset or the labels of \<open>I\<close> (none when the key is absent) and \<open>C\<close> have
  a common element. An item with absent or empty labels never matches a filter that is
  set, and one shared label is enough.
\<close>

theorem matches_class_filter:
  "(matches_class C I \<longleftrightarrow>
      (C = None \<or> set (case labels I of None \<Rightarrow> [] | Some ls \<Rightarrow> ls) \<inter> set (the C) \<noteq> {}))
   \<and> ((labels I = None \<or> labels I = Some []) \<longrightarrow> \<not> matches_class (Some cs) I)
   \<and> (labels I = Some ls \<and> l \<in> set ls \<and> l \<in> set cs \<longrightarrow> matches_class (Some cs) I)"
  by (cases C) (auto simp: matches_class_def label_loop_iff split: option.splits)

theorem matches_class_filter_witness:
  "matches_class (Some [''Water'']) example_item_a
   \<and> \<not> matches_class (Some [''Water'']) example_item_b
   \<and> \<not> matches_class (Some [''Water'']) example_item_c
   \<and> matches_class None example_item_c"
  using matches_class_filter [of "Some [''Water'']" example_item_a "[''Water'']" "[''Water'', ''Woody Vegetation'']" "''Water''"]
    matches_class_filter [of "Some [''Water'']" example_item_b "[''Water'']"]
    matches_class_filter [of "Some [''Water'']" example_item_c "[''Water'']"]
    matches_class_filter [of None example_item_c]
  by (simp add: example_item_a_def example_item_b_def example_item_c_def)

subsection \<open>An asset behind an S3 redirect\<close>

text \<open>
  Claim C9. For every task whose href is redirected, by the \<^verbatim>\<open>Location\<close> header, to
  \<^verbatim>\<open>s3://bucket/path/to/file.tif\<close>, \<^verbatim>\<open>download\<close> takes the S3 branch and never the HTTP one:
  it asks for the object with bucket \<^verbatim>\<open>bucket\<close> and key \<^verbatim>\<open>path/to/file.tif\<close> and has it
  written to the one file \<^verbatim>\<open>os.path.join(dir, 'file.tif')\<close>, whose last segment is
  \<^verbatim>\<open>file.tif\<close>; the only other outcome is the exception of \<^verbatim>\<open>s3.download_file\<close> itself.
\<close>

theorem download_s3_scenario:
  "redirect_get E h = Headers (Some ''s3://bucket/path/to/file.tif'') \<Longrightarrow>
   download E (h, dir) =
     (if s3_download_ok E ''bucket'' ''path/to/file.tif''
      then ([S3DownloadFile ''bucket'' ''path/to/file.tif'' (path_join dir ''file.tif'')], Inr ())
      else ([], Inl ClientError))
   \<and> last_segment (path_join dir ''file.tif'') = ''file.tif''"
proof -
  assume r: "redirect_get E h = Headers (Some ''s3://bucket/path/to/file.tif'')"
  have seg: "last_segment ''path/to/file.tif'' = ''file.tif''" by code_simp
  have "download E (h, dir) = download_s3 E ''s3://bucket/path/to/file.tif'' dir"
    by (simp add: download_def get_download_uri_def r urlparse_s3_example)
  moreover have "download_s3 E ''s3://bucket/path/to/file.tif'' dir =
     (if s3_download_ok E ''bucket'' ''path/to/file.tif''
      then ([S3DownloadFile ''bucket'' ''path/to/file.tif'' (path_join dir ''file.tif'')], Inr ())
      else ([], Inl ClientError))"
    by (simp add: download_s3_def urlparse_s3_example seg)
  moreover have "last_segment (path_join dir ''file.tif'') = ''file.tif''"
    by (rule last_segment_join) simp
  ultimately show ?thesis by simp
qed

theorem download_s3_scenario_witness:
  "redirect_get example_env ''h1'' = Headers (Some ''s3://bucket/path/to/file.tif'')
   \<and> download example_env (''h1'', ''landcovernet/a/2018_01_07'')
       = ([S3DownloadFile ''bucket'' ''path/to/file.tif'' ''landcovernet/a/2018_01_07/file.tif''], Inr ())"
proof -
  have r: "redirect_get example_env ''h1'' = Headers (Some ''s3://bucket/path/to/file.tif'')"
    by (simp add: example_env_def)
  have j: "path_join ''landcovernet/a/2018_01_07'' ''file.tif'' = ''landcovernet/a/2018_01_07/file.tif''"
    by (simp add: path_join_def)
  have ok: "s3_download_ok example_env ''bucket'' ''path/to/file.tif''"
    by (simp add: example_env_def)
  from download_s3_scenario [OF r, of "''landcovernet/a/2018_01_07''"] r j ok
  show ?thesis by simp
qed

subsection \<open>Destination directories\<close>

text \<open>
  Claim C8. The destination directory of the asset tasks of a sub-item is a function of the
  item id and of the capture date alone: it is the root directory of the item followed by
  the date formatted as \<^verbatim>\<open>YYYY_MM_DD\<close> (four, two and two decimal digits), and it is never
  the root directory itself. In the result of an expansion every task before the last
  batch has such a destination, and the last batch is the label task, whose destination is
  the root directory of the item.
\<close>

theorem destination_paths:
  "(source_get E u = Decoded r \<longrightarrow>
      get_source_item_assets E (item_path I, Some u)
        = ([EnsureDir (item_path I @ format_date (datetime r))],
           Inr (map (\<lambda>(key, h). (h, item_path I @ format_date (datetime r))) (assets r)))
      \<and> item_path I @ format_date (datetime r) \<noteq> item_path I)
   \<and> (year d < 10000 \<and> month d < 100 \<and> day d < 100 \<longrightarrow>
        format_date d =
          [digit (year d div 1000), digit (year d div 100), digit (year d div 10), digit (year d),
           CHR ''_'', digit (month d div 10), digit (month d),
           CHR ''_'', digit (day d div 10), digit (day d)])
   \<and> (download_source_and_labels E I = (ev, Inr bs) \<longrightarrow>
        (\<exists>h. assets_labels I = Some h \<and> last bs = [(h, item_path I)])
        \<and> (\<forall>b\<in>set (butlast bs). \<forall>t\<in>set b.
              snd t \<noteq> item_path I \<and> (\<exists>d'. snd t = item_path I @ format_date d')))"
proof (intro conjI impI)
  assume "source_get E u = Decoded r"
  then show "get_source_item_assets E (item_path I, Some u)
        = ([EnsureDir (item_path I @ format_date (datetime r))],
           Inr (map (\<lambda>(key, h). (h, item_path I @ format_date (datetime r))) (assets r)))"
    by (rule get_source_item_assets_Decoded)
next
  show "item_path I @ format_date (datetime r) \<noteq> item_path I"
    using format_date_hd[of "datetime r"] by simp
next
  assume "year d < 10000 \<and> month d < 100 \<and> day d < 100"
  then show "format_date d =
          [digit (year d div 1000), digit (year d div 100), digit (year d div 10), digit (year d),
           CHR ''_'', digit (month d div 10), digit (month d),
           CHR ''_'', digit (day d div 10), digit (day d)]"
    by (simp add: format_date_shape)
next
  assume a: "download_source_and_labels E I = (ev, Inr bs)"
  from expansion_result(1)[OF a] obtain h where h: "assets_labels I = Some h"
    and bs: "bs = map (\<lambda>l. projr (snd (get_source_item_assets E (item_path I, href l)))) (source_links I)
                 @ [[(h, item_path I)]]" by blast
  from h bs show "\<exists>h. assets_labels I = Some h \<and> last bs = [(h, item_path I)]" by simp
next
  assume a: "download_source_and_labels E I = (ev, Inr bs)"
  from expansion_result(1)[OF a] obtain h where
    bs: "bs = map (\<lambda>l. projr (snd (get_source_item_assets E (item_path I, href l)))) (source_links I)
                 @ [[(h, item_path I)]]" by blast
  show "\<forall>b\<in>set (butlast bs). \<forall>t\<in>set b.
              snd t \<noteq> item_path I \<and> (\<exists>d'. snd t = item_path I @ format_date d')"
  proof (intro ballI)
    fix b t assume b: "b \<in> set (butlast bs)" and t: "t \<in> set b"
    from b bs obtain l where l: "l \<in> set (source_links I)"
      and bl: "b = projr (snd (get_source_item_assets E (item_path I, href l)))"
      by (auto simp: butlast_append)
    from expansion_result(2)[OF a] l
    have "\<not> isl (snd (get_source_item_assets E (item_path I, href l)))" by blast
    then obtain ev' where "get_source_item_assets E (item_path I, href l) = (ev', Inr b)"
      using bl by (cases "get_source_item_assets E (item_path I, href l)") (auto simp: isl_def)
    from get_source_item_assets_dest[OF this t] obtain d' where
      d': "snd t = item_path I @ format_date d'" by blast
    with format_date_hd[of d'] show "snd t \<noteq> item_path I \<and> (\<exists>d'. snd t = item_path I @ format_date d')"
      by auto
  qed
qed

theorem destination_paths_witness:
  "source_get example_env ''s1'' = Decoded \<lparr>datetime = \<lparr>year = 2018, month = 1, day = 7\<rparr>,
                                     assets = [(''B01'', ''h1''), (''B02'', ''h2'')]\<rparr>
   \<and> get_source_item_assets example_env (item_path example_item_a, Some ''s1'')
       = ([EnsureDir ''landcovernet/a/2018_01_07''],
          Inr [(''h1'', ''landcovernet/a/2018_01_07''), (''h2'', ''landcovernet/a/2018_01_07'')])
   \<and> format_date \<lparr>year = 2018, month = 1, day = 7\<rparr> = ''2018_01_07''
   \<and> download_source_and_labels example_env example_item_a
       = ([EnsureDir ''landcovernet/a/'', EnsureDir ''landcovernet/a/2018_01_07'', CouldNotLoad (Some ''s2'')],
          Inr [[(''h1'', ''landcovernet/a/2018_01_07''), (''h2'', ''landcovernet/a/2018_01_07'')],
               [], [(''la'', ''landcovernet/a/'')]])
   \<and> last [[(''h1'', ''landcovernet/a/2018_01_07''), (''h2'', ''landcovernet/a/2018_01_07'')],
               [], [(''la'', ''landcovernet/a/'')]] = [(''la'', item_path example_item_a)]"
proof -
  let ?r = "\<lparr>datetime = \<lparr>year = 2018, month = 1, day = 7\<rparr>,
             assets = [(''B01'', ''h1''), (''B02'', ''h2'')]\<rparr>"
  let ?bs = "[[(''h1'', ''landcovernet/a/2018_01_07''), (''h2'', ''landcovernet/a/2018_01_07'')],
               [], [(''la'', ''landcovernet/a/'')]]"
  let ?ev = "[EnsureDir ''landcovernet/a/'', EnsureDir ''landcovernet/a/2018_01_07'', CouldNotLoad (Some ''s2'')]"
  have s: "source_get example_env ''s1'' = Decoded ?r" by (simp add: example_env_def)
  have p: "item_path example_item_a = ''landcovernet/a/''"
    by (simp add: item_path_def example_item_a_def)
  have f: "format_date \<lparr>year = 2018, month = 1, day = 7\<rparr> = ''2018_01_07''" by code_simp
  have e: "download_source_and_labels example_env example_item_a = (?ev, Inr ?bs)" by code_simp
  from destination_paths [of example_env "''s1''" ?r example_item_a "\<lparr>year = 2018, month = 1, day = 7\<rparr>" ?ev ?bs]
    s p f e
  show ?thesis by simp
qed

subsection \<open>The tasks of one item\<close>

text \<open>
  Claim C5. The number of tasks that the expansion of an item produces should be the sum
  of the asset counts of the sub-items that were fetched, plus one for the labels asset
  of the item, whose destination is the root directory of the item. Item \<open>b\<close> of the
  example has a labels asset and two source links: the sub-item behind \<open>s3\<close> is not
  fetched and counts nothing, the one behind \<open>s1\<close> is fetched and has two assets, so
  three tasks are due. The expansion raises instead and produces no task, the label task
  included: the body of \<open>s3\<close> does not decode, and the decoding is outside the \<^verbatim>\<open>try\<close> of
  \<^verbatim>\<open>get_source_item_assets\<close> (the defect of claim C6). Where an expansion returns, the
  count is as claimed (lemma \<open>expansion_count_when_returned\<close>).
\<close>

theorem expansion_count_lost_on_decode_error:
  "assets_labels example_item_b = Some ''lb''
   \<and> source_links example_item_b = [\<lparr>rel = ''source'', href = Some ''s3''\<rparr>, \<lparr>rel = ''source'', href = Some ''s1''\<rparr>]
   \<and> map (fetched_asset_count example_env) (source_links example_item_b) = [0, 2]
   \<and> sum_list (map (fetched_asset_count example_env) (source_links example_item_b)) + 1 = 3
   \<and> download_source_and_labels example_env example_item_b
       = ([EnsureDir ''landcovernet/b/'', EnsureDir ''landcovernet/b/2018_01_07''], Inl DecodeError)"
proof (intro conjI)
  show "assets_labels example_item_b = Some ''lb''" by (simp add: example_item_b_def)
  show "source_links example_item_b = [\<lparr>rel = ''source'', href = Some ''s3''\<rparr>, \<lparr>rel = ''source'', href = Some ''s1''\<rparr>]"
    by (simp add: source_links_def example_item_b_def)
  show "map (fetched_asset_count example_env) (source_links example_item_b) = [0, 2]"
    by (simp add: source_links_def example_item_b_def fetched_asset_count_def example_env_def)
  show "sum_list (map (fetched_asset_count example_env) (source_links example_item_b)) + 1 = 3"
    by (simp add: source_links_def example_item_b_def fetched_asset_count_def example_env_def)
  show "download_source_and_labels example_env example_item_b
       = ([EnsureDir ''landcovernet/b/'', EnsureDir ''landcovernet/b/2018_01_07''], Inl DecodeError)"
    by code_simp
qed

text \<open>
  Claim C6. A sub-item whose metadata cannot be fetched or decoded should contribute no
  task and leave the tasks of its siblings and the label task in place. The \<^verbatim>\<open>try\<close> of
  \<^verbatim>\<open>get_source_item_assets\<close> covers \<^verbatim>\<open>requests.get\<close> only: for item \<open>b\<close> of the example, whose
  first source document is a 500 page that does not decode and whose second one is
  sound, the decoding raises, \<^verbatim>\<open>p.map\<close> re-raises, and the expansion returns no task at all;
  the walk that reaches the item ends with that exception.
\<close>

theorem undecodable_sub_item_aborts_expansion:
  "source_links example_item_b = [\<lparr>rel = ''source'', href = Some ''s3''\<rparr>, \<lparr>rel = ''source'', href = Some ''s1''\<rparr>]
   \<and> source_get example_env ''s3'' = Undecodable
   \<and> download_source_and_labels example_env example_item_b
       = ([EnsureDir ''landcovernet/b/'', EnsureDir ''landcovernet/b/2018_01_07''], Inl DecodeError)
   \<and> get_items 1 example_env ''p1'' (Some [''No Data'']) None 0 \<lparr>downloads = [], trace = []\<rparr>
       = Raised DecodeError
           \<lparr>downloads = [],
            trace = [Loading ''p1'', Getting ''b'', EnsureDir ''landcovernet/b/'',
                     EnsureDir ''landcovernet/b/2018_01_07'']\<rparr>"
proof (intro conjI)
  show "source_links example_item_b = [\<lparr>rel = ''source'', href = Some ''s3''\<rparr>, \<lparr>rel = ''source'', href = Some ''s1''\<rparr>]"
    by (simp add: source_links_def example_item_b_def)
  show "source_get example_env ''s3'' = Undecodable" by (simp add: example_env_def)
  show "download_source_and_labels example_env example_item_b
       = ([EnsureDir ''landcovernet/b/'', EnsureDir ''landcovernet/b/2018_01_07''], Inl DecodeError)"
    by code_simp
  show "get_items 1 example_env ''p1'' (Some [''No Data'']) None 0 \<lparr>downloads = [], trace = []\<rparr>
       = Raised DecodeError
           \<lparr>downloads = [],
            trace = [Loading ''p1'', Getting ''b'', EnsureDir ''landcovernet/b/'',
                     EnsureDir ''landcovernet/b/2018_01_07'']\<rparr>"
    by code_simp
qed

subsection \<open>Errors of a download task\<close>

text \<open>
  Claim C4 says that an error raised while a task is resolved or fetched is caught and
  logged in the worker and never reaches the sibling tasks. \<^verbatim>\<open>download\<close> has no handler,
  and neither have the cells that call \<^verbatim>\<open>p.map(download, d)\<close>: in the example the task
  with href \<open>h2\<close>, whose redirect has no \<^verbatim>\<open>Location\<close> header, raises \<^verbatim>\<open>KeyError\<close>, and the
  task with href \<open>h1\<close> in the batch after it, which succeeds when run alone, is never
  attempted.
\<close>

theorem failing_task_aborts_later_batches:
  "download example_env (''h2'', ''d'') = ([], Inl (KeyError ''location''))
   \<and> run_downloads example_env [[(''h1'', ''d'')]]
       = ([S3DownloadFile ''bucket'' ''path/to/file.tif'' ''d/file.tif''], Inr ())
   \<and> run_downloads example_env [[(''h2'', ''d'')], [(''h1'', ''d'')]]
       = ([], Inl (KeyError ''location''))"
  by (intro conjI) code_simp+

text \<open>
  Claim C4, amended. An error raised while a task is resolved or fetched is not caught:
  \<^verbatim>\<open>download\<close> raises what \<^verbatim>\<open>get_download_uri\<close> raises, what \<^verbatim>\<open>urlparse\<close> raises on the
  resolved URI (an unmatched bracket in the host), what \<^verbatim>\<open>s3.download_file\<close> or
  \<^verbatim>\<open>requests.get\<close> raises, and what \<^verbatim>\<open>open\<close> raises on the name of the file to write (a
  name that is empty or ends with a slash, or that the file system refuses). \<^verbatim>\<open>p.map\<close>
  over a batch that holds such a task re-raises an error, and the loop over the batches
  ends there with the effects of that batch, so that no task of a later batch is
  attempted. Only a resolved URI that parses and whose scheme is none of \<^verbatim>\<open>s3\<close>, \<^verbatim>\<open>http\<close>,
  \<^verbatim>\<open>https\<close> is skipped without an error.
\<close>

theorem download_errors_propagate:
  "(get_download_uri E (fst t) = Inl e \<longrightarrow> download E t = ([], Inl e))
   \<and> (get_download_uri E (fst t) = Inr uri \<and> urlparse uri = Inl e \<longrightarrow> download E t = ([], Inl e))
   \<and> (get_download_uri E (fst t) = Inr uri \<and> urlparse uri = Inr parsed \<and> scheme parsed = ''s3''
        \<and> \<not> s3_download_ok E (netloc parsed) (drop 1 (path parsed))
        \<longrightarrow> download E t = ([], Inl ClientError))
   \<and> (get_download_uri E (fst t) = Inr uri \<and> urlparse uri = Inr parsed
        \<and> scheme parsed \<in> {''http'', ''https''} \<and> \<not> http_get_ok E uri
        \<longrightarrow> download E t = ([], Inl RequestError))
   \<and> (get_download_uri E (fst t) = Inr uri \<and> urlparse uri = Inr parsed
        \<and> scheme parsed \<in> {''http'', ''https''} \<and> http_get_ok E uri
        \<and> (path_join (snd t) (last_segment (path parsed)) = []
            \<or> last (path_join (snd t) (last_segment (path parsed))) = CHR ''/''
            \<or> \<not> open_ok E (path_join (snd t) (last_segment (path parsed))))
        \<longrightarrow> download E t = ([], Inl OSError))
   \<and> (get_download_uri E (fst t) = Inr uri \<and> urlparse uri = Inr parsed
        \<and> scheme parsed \<notin> {''s3'', ''http'', ''https''}
        \<longrightarrow> download E t = ([], Inr ()))
   \<and> (t \<in> set d \<and> isl (snd (download E t)) \<longrightarrow>
        (\<exists>e'. snd (pool_map (download E) d) = Inl e'
              \<and> run_downloads E (d # ds) = (fst (pool_map (download E) d), Inl e')))"
proof (intro conjI impI)
  assume "get_download_uri E (fst t) = Inl e"
  then show "download E t = ([], Inl e)" by (simp add: download_def)
next
  assume "get_download_uri E (fst t) = Inr uri \<and> urlparse uri = Inl e"
  then show "download E t = ([], Inl e)" by (simp add: download_def)
next
  assume "get_download_uri E (fst t) = Inr uri \<and> urlparse uri = Inr parsed \<and> scheme parsed = ''s3''
        \<and> \<not> s3_download_ok E (netloc parsed) (drop 1 (path parsed))"
  then show "download E t = ([], Inl ClientError)"
    by (simp add: download_def download_s3_def Let_def)
next
  assume a: "get_download_uri E (fst t) = Inr uri \<and> urlparse uri = Inr parsed
        \<and> scheme parsed \<in> {''http'', ''https''} \<and> \<not> http_get_ok E uri"
  then have "scheme parsed \<noteq> ''s3''" by auto
  with a show "download E t = ([], Inl RequestError)"
    by (auto simp: download_def download_http_def Let_def)
next
  assume a: "get_download_uri E (fst t) = Inr uri \<and> urlparse uri = Inr parsed
        \<and> scheme parsed \<in> {''http'', ''https''} \<and> http_get_ok E uri
        \<and> (path_join (snd t) (last_segment (path parsed)) = []
            \<or> last (path_join (snd t) (last_segment (path parsed))) = CHR ''/''
            \<or> \<not> open_ok E (path_join (snd t) (last_segment (path parsed))))"
  then have "scheme parsed \<noteq> ''s3''" by auto
  with a show "download E t = ([], Inl OSError)"
    by (auto simp: download_def download_http_def Let_def)
next
  assume "get_download_uri E (fst t) = Inr uri \<and> urlparse uri = Inr parsed
        \<and> scheme parsed \<notin> {''s3'', ''http'', ''https''}"
  then show "download E t = ([], Inr ())" by (simp add: download_def Let_def)
next
  assume "t \<in> set d \<and> isl (snd (download E t))"
  then show "\<exists>e'. snd (pool_map (download E) d) = Inl e'
              \<and> run_downloads E (d # ds) = (fst (pool_map (download E) d), Inl e')"
    using run_downloads_failing_batch by blast
qed

theorem download_errors_propagate_witness:
  "get_download_uri example_env (fst (''h2'', ''d'')) = Inl (KeyError ''location'')
   \<and> download example_env (''h2'', ''d'') = ([], Inl (KeyError ''location''))
   \<and> (''h2'', ''d'') \<in> set [(''h2'', ''d'')] \<and> isl (snd (download example_env (''h2'', ''d'')))
   \<and> isl (snd (run_downloads example_env [[(''h2'', ''d'')], [(''h1'', ''d'')]]))
   \<and> get_download_uri odd_redirect_env ''r1'' = Inr ''http://[::1/x''
   \<and> urlparse ''http://[::1/x'' = Inl ValueError
   \<and> download odd_redirect_env (''r1'', ''d'') = ([], Inl ValueError)
   \<and> get_download_uri odd_redirect_env ''r2'' = Inr ''https://example.org''
   \<and> urlparse ''https://example.org'' = Inr \<lparr>scheme = ''https'', netloc = ''example.org'', path = ''''\<rparr>
   \<and> path_join ''d'' (last_segment '''') = ''d/''
   \<and> download odd_redirect_env (''r2'', ''d'') = ([], Inl OSError)
   \<and> get_download_uri odd_redirect_env ''r3'' = Inr ''ftp://example.org/a.tif''
   \<and> urlparse ''ftp://example.org/a.tif''
       = Inr \<lparr>scheme = ''ftp'', netloc = ''example.org'', path = ''/a.tif''\<rparr>
   \<and> download odd_redirect_env (''r3'', ''d'') = ([], Inr ())"
proof -
  let ?p0 = "\<lparr>scheme = '''', netloc = '''', path = ''''\<rparr>"
  let ?p2 = "\<lparr>scheme = ''https'', netloc = ''example.org'', path = ''''\<rparr>"
  let ?p3 = "\<lparr>scheme = ''ftp'', netloc = ''example.org'', path = ''/a.tif''\<rparr>"
  have r: "get_download_uri example_env (fst (''h2'', ''d'')) = Inl (KeyError ''location'')"
    by (simp add: get_download_uri_def example_env_def)
  have g1: "get_download_uri odd_redirect_env ''r1'' = Inr ''http://[::1/x''"
    by (simp add: get_download_uri_def odd_redirect_env_def)
  have g2: "get_download_uri odd_redirect_env ''r2'' = Inr ''https://example.org''"
    by (simp add: get_download_uri_def odd_redirect_env_def)
  have g3: "get_download_uri odd_redirect_env ''r3'' = Inr ''ftp://example.org/a.tif''"
    by (simp add: get_download_uri_def odd_redirect_env_def)
  have u1: "urlparse ''http://[::1/x'' = Inl ValueError" by code_simp
  have u2: "urlparse ''https://example.org'' = Inr ?p2" by code_simp
  have u3: "urlparse ''ftp://example.org/a.tif'' = Inr ?p3" by code_simp
  have j: "path_join ''d'' (last_segment '''') = ''d/''" by code_simp
  have ok: "http_get_ok odd_redirect_env ''https://example.org''"
    by (simp add: odd_redirect_env_def)
  have a: "download example_env (''h2'', ''d'') = ([], Inl (KeyError ''location''))
      \<and> isl (snd (run_downloads example_env [[(''h2'', ''d'')], [(''h1'', ''d'')]]))"
    using download_errors_propagate
      [of example_env "(''h2'', ''d'')" "KeyError ''location''" "''''" ?p0 "[(''h2'', ''d'')]" "[[(''h1'', ''d'')]]"] r
    by auto
  have b: "download odd_redirect_env (''r1'', ''d'') = ([], Inl ValueError)"
    using download_errors_propagate
      [of odd_redirect_env "(''r1'', ''d'')" ValueError "''http://[::1/x''" ?p0 "[]" "[]"] g1 u1
    by simp
  have c: "download odd_redirect_env (''r2'', ''d'') = ([], Inl OSError)"
    using download_errors_propagate
      [of odd_redirect_env "(''r2'', ''d'')" ValueError "''https://example.org''" ?p2 "[]" "[]"] g2 u2 j ok
    by simp
  have d: "download odd_redirect_env (''r3'', ''d'') = ([], Inr ())"
    using download_errors_propagate
      [of odd_redirect_env "(''r3'', ''d'')" ValueError "''ftp://example.org/a.tif''" ?p3 "[]" "[]"] g3 u3
    by simp
  from a b c d r g1 g2 g3 u1 u2 u3 j show ?thesis by simp
qed

subsection \<open>Pagination\<close>

text \<open>
  Claim C7 says that on every finite chain of listing pages the walk visits each page
  exactly once and terminates. On the chain \<open>p1\<close>, \<open>p2\<close> of the example three walks end
  before \<open>p2\<close> is loaded: the walk that expands item \<open>b\<close> ends with the exception of the
  expansion; the walk with a cap of one item returns after the first matching item of
  \<open>p1\<close>; and the walk whose stack has no room for a nested call ends with
  \<^verbatim>\<open>RecursionError\<close> at the next link of \<open>p1\<close>.
\<close>

theorem walk_ends_before_last_page:
  "chain example_env ''p1'' [''p2'']
   \<and> get_items 1 example_env ''p1'' (Some [''No Data'']) None 0 empty_walk
       = Raised DecodeError
           \<lparr>downloads = [],
            trace = [Loading ''p1'', Getting ''b'', EnsureDir ''landcovernet/b/'',
                     EnsureDir ''landcovernet/b/2018_01_07'']\<rparr>
   \<and> pages_loaded [Loading ''p1'', Getting ''b'', EnsureDir ''landcovernet/b/'',
                     EnsureDir ''landcovernet/b/2018_01_07''] = [''p1'']
   \<and> get_items 1 example_env ''p1'' (Some [''Water'']) (Some 1) 0 empty_walk
       = Returned \<lparr>downloads = [[(''h1'', ''landcovernet/a/2018_01_07''), (''h2'', ''landcovernet/a/2018_01_07'')],
                         [], [(''la'', ''landcovernet/a/'')]],
            trace = [Loading ''p1'', Getting ''a'', EnsureDir ''landcovernet/a/'',
                     EnsureDir ''landcovernet/a/2018_01_07'', CouldNotLoad (Some ''s2'')]\<rparr>
   \<and> get_items 0 example_env ''p1'' (Some [''Water'']) None 0 empty_walk
       = Raised RecursionError \<lparr>downloads = [[(''h1'', ''landcovernet/a/2018_01_07''), (''h2'', ''landcovernet/a/2018_01_07'')],
                         [], [(''la'', ''landcovernet/a/'')]],
            trace = [Loading ''p1'', Getting ''a'', EnsureDir ''landcovernet/a/'',
                     EnsureDir ''landcovernet/a/2018_01_07'', CouldNotLoad (Some ''s2'')]\<rparr>
   \<and> pages_loaded [Loading ''p1'', Getting ''a'', EnsureDir ''landcovernet/a/'',
                     EnsureDir ''landcovernet/a/2018_01_07'', CouldNotLoad (Some ''s2'')] = [''p1'']"
proof (intro conjI)
  show "chain example_env ''p1'' [''p2'']" by (rule example_chain)
qed code_simp+

text \<open>
  Claim C7, amended. On a finite chain of listing pages, where every page has exactly one
  followable next link, to the next page, and the last page has none, and whose length
  the recursion limit allows: the pages are pairwise distinct, and the walk is the one
  loop over the pages of the chain in order and, on each page, over its matching items.
  It loads a prefix of the chain, every page at most once and the first page always; it
  returns unless the expansion of a matching item raises, and it never raises
  \<^verbatim>\<open>RecursionError\<close>. When it returns and the cap, if one is set, has not been reached, it
  has loaded every page of the chain exactly once and expanded every matching item. The
  loop over the links of a page without a followable next link returns at once.
\<close>

theorem walk_visits_chain_once:
  "chain E u vs \<Longrightarrow> length vs \<le> n \<Longrightarrow>
     distinct (u # vs)
     \<and> get_items n E u c mx k w = flat_walk E mx k (chain_steps E c (u # vs)) w
     \<and> (\<exists>evs. trace (walk_of (get_items n E u c mx k w)) = trace w @ evs
           \<and> (\<exists>j. pages_loaded evs = take (Suc j) (u # vs))
           \<and> ((\<exists>w'. get_items n E u c mx k w = Returned w')
                \<and> (mx = None \<or> k + int (length (items_expanded evs)) < the mx)
               \<longrightarrow> pages_loaded evs = u # vs
                   \<and> items_expanded evs = map item_id (chain_items E c (u # vs))))
     \<and> ((\<forall>f\<in>set (chain_items E c (u # vs)). \<not> isl (snd (download_source_and_labels E f)))
           \<longrightarrow> (\<exists>w'. get_items n E u c mx k w = Returned w'))
     \<and> (\<forall>e w'. get_items n E u c mx k w = Raised e w' \<longrightarrow>
           e \<noteq> RecursionError
           \<and> (\<exists>f\<in>set (chain_items E c (u # vs)). snd (download_source_and_labels E f) = Inl e))
     \<and> (next_hrefs ls = [] \<longrightarrow> link_loop n' E c mx k ls w = Returned w)"
proof -
  assume ch: "chain E u vs" and len: "length vs \<le> n"
  let ?out = "get_items n E u c mx k w"
  let ?ss = "chain_steps E c (u # vs)"
  have ref: "?out = flat_walk E mx k ?ss w" by (rule chain_refines[OF ch len])
  have raised: "e \<noteq> RecursionError
           \<and> (\<exists>f\<in>set (chain_items E c (u # vs)). snd (download_source_and_labels E f) = Inl e)"
    if r: "?out = Raised e w'" for e w'
  proof -
    from r ref have "flat_walk E mx k ?ss w = Raised e w'" by simp
    from flat_raised[OF this] obtain f where f: "f \<in> set (chain_items E c (u # vs))"
      and fe: "snd (download_source_and_labels E f) = Inl e"
      by (auto simp: step_items_chain)
    from expansion_error[OF fe] have "e \<noteq> RecursionError" by auto
    with f fe show ?thesis by blast
  qed
  have returns: "\<exists>w'. ?out = Returned w'"
    if ok: "\<forall>f\<in>set (chain_items E c (u # vs)). \<not> isl (snd (download_source_and_labels E f))"
  proof (cases ?out)
    case (Returned w') then show ?thesis by blast
  next
    case (Raised e w')
    from raised[OF this] ok show ?thesis by (auto simp: isl_def)
  qed
  from chain_walk[OF ch len, of c mx k w] obtain evs where
    t: "trace (walk_of ?out) = trace w @ evs"
    and pre: "\<exists>j. pages_loaded evs = take (Suc j) (u # vs)" by auto
  have full: "pages_loaded evs = u # vs \<and> items_expanded evs = map item_id (chain_items E c (u # vs))"
    if a: "(\<exists>w'. ?out = Returned w') \<and> (mx = None \<or> k + int (length (items_expanded evs)) < the mx)"
  proof -
    from a obtain w' where w': "?out = Returned w'" by blast
    with ref have fw: "flat_walk E mx k ?ss w = Returned w'" by simp
    from t w' have tw: "trace w' = trace w @ evs" by simp
    from a have cap: "mx = None \<or> k + int (length (items_expanded evs)) < the mx" by blast
    from flat_full[OF fw tw cap] show ?thesis by (simp add: step_pages_chain step_items_chain)
  qed
  have nonext: "link_loop n' E c mx k ls w = Returned w" if "next_hrefs ls = []"
    using that by (rule link_loop_no_next)
  have d: "distinct (u # vs)" using ch by (rule chain_distinct)
  have ex: "\<exists>evs. trace (walk_of ?out) = trace w @ evs
           \<and> (\<exists>j. pages_loaded evs = take (Suc j) (u # vs))
           \<and> ((\<exists>w'. ?out = Returned w')
                \<and> (mx = None \<or> k + int (length (items_expanded evs)) < the mx)
               \<longrightarrow> pages_loaded evs = u # vs
                   \<and> items_expanded evs = map item_id (chain_items E c (u # vs)))"
    using t pre full by blast
  from d ref ex returns raised nonext show ?thesis by blast
qed

theorem walk_visits_chain_once_witness:
  "chain example_env ''p1'' [''p2''] \<and> length [''p2''] \<le> (1::nat)
   \<and> distinct [''p1'', ''p2'']
   \<and> get_items 1 example_env ''p1'' (Some [''Water'']) (Some 5) 0 empty_walk
       = Returned
           \<lparr>downloads = [[(''h1'', ''landcovernet/a/2018_01_07''), (''h2'', ''landcovernet/a/2018_01_07'')],
                         [], [(''la'', ''landcovernet/a/'')]],
            trace = [Loading ''p1'', Getting ''a'', EnsureDir ''landcovernet/a/'',
                     EnsureDir ''landcovernet/a/2018_01_07'', CouldNotLoad (Some ''s2''),
                     Loading ''p2'']\<rparr>
   \<and> flat_walk example_env (Some 5) 0 (chain_steps example_env (Some [''Water'']) [''p1'', ''p2'']) empty_walk
       = Returned
           \<lparr>downloads = [[(''h1'', ''landcovernet/a/2018_01_07''), (''h2'', ''landcovernet/a/2018_01_07'')],
                         [], [(''la'', ''landcovernet/a/'')]],
            trace = [Loading ''p1'', Getting ''a'', EnsureDir ''landcovernet/a/'',
                     EnsureDir ''landcovernet/a/2018_01_07'', CouldNotLoad (Some ''s2''),
                     Loading ''p2'']\<rparr>
   \<and> pages_loaded [Loading ''p1'', Getting ''a'', EnsureDir ''landcovernet/a/'',
                     EnsureDir ''landcovernet/a/2018_01_07'', CouldNotLoad (Some ''s2''),
                     Loading ''p2''] = [''p1'', ''p2'']
   \<and> items_expanded [Loading ''p1'', Getting ''a'', EnsureDir ''landcovernet/a/'',
                     EnsureDir ''landcovernet/a/2018_01_07'', CouldNotLoad (Some ''s2''),
                     Loading ''p2''] = [''a'']
   \<and> chain_items example_env (Some [''Water'']) [''p1'', ''p2''] = [example_item_a]
   \<and> \<not> isl (snd (download_source_and_labels example_env example_item_a))
   \<and> get_items 1 example_env ''p1'' (Some [''No Data'']) None 0 empty_walk
       = Raised DecodeError
           \<lparr>downloads = [],
            trace = [Loading ''p1'', Getting ''b'', EnsureDir ''landcovernet/b/'',
                     EnsureDir ''landcovernet/b/2018_01_07'']\<rparr>
   \<and> chain_items example_env (Some [''No Data'']) [''p1'', ''p2''] = [example_item_b]
   \<and> snd (download_source_and_labels example_env example_item_b) = Inl DecodeError
   \<and> next_hrefs [\<lparr>rel = ''next'', href = None\<rparr>] = []
   \<and> link_loop 0 example_env (Some [''Water'']) (Some 5) 0 [\<lparr>rel = ''next'', href = None\<rparr>] empty_walk
       = Returned empty_walk"
proof -
  have g: "get_items 1 example_env ''p1'' (Some [''Water'']) (Some 5) 0 empty_walk
       = Returned
           \<lparr>downloads = [[(''h1'', ''landcovernet/a/2018_01_07''), (''h2'', ''landcovernet/a/2018_01_07'')],
                         [], [(''la'', ''landcovernet/a/'')]],
            trace = [Loading ''p1'', Getting ''a'', EnsureDir ''landcovernet/a/'',
                     EnsureDir ''landcovernet/a/2018_01_07'', CouldNotLoad (Some ''s2''),
                     Loading ''p2'']\<rparr>"
    by code_simp
  have p: "pages_loaded [Loading ''p1'', Getting ''a'', EnsureDir ''landcovernet/a/'',
                     EnsureDir ''landcovernet/a/2018_01_07'', CouldNotLoad (Some ''s2''),
                     Loading ''p2''] = [''p1'', ''p2'']" by simp
  have i: "items_expanded [Loading ''p1'', Getting ''a'', EnsureDir ''landcovernet/a/'',
                     EnsureDir ''landcovernet/a/2018_01_07'', CouldNotLoad (Some ''s2''),
                     Loading ''p2''] = [''a'']" by simp
  have ci: "chain_items example_env (Some [''Water'']) [''p1'', ''p2''] = [example_item_a]"
    by code_simp
  have ok: "\<not> isl (snd (download_source_and_labels example_env example_item_a))" by code_simp
  have gb: "get_items 1 example_env ''p1'' (Some [''No Data'']) None 0 empty_walk
       = Raised DecodeError
           \<lparr>downloads = [],
            trace = [Loading ''p1'', Getting ''b'', EnsureDir ''landcovernet/b/'',
                     EnsureDir ''landcovernet/b/2018_01_07'']\<rparr>"
    by code_simp
  have cb: "chain_items example_env (Some [''No Data'']) [''p1'', ''p2''] = [example_item_b]"
    by code_simp
  have eb: "snd (download_source_and_labels example_env example_item_b) = Inl DecodeError"
    by code_simp
  have nh: "next_hrefs [\<lparr>rel = ''next'', href = None\<rparr>] = []" by (simp add: next_hrefs_def)
  have l: "length [''p2''] \<le> (1::nat)" by simp
  from walk_visits_chain_once [OF example_chain l, of "Some [''Water'']" "Some 5" 0 empty_walk
      "[\<lparr>rel = ''next'', href = None\<rparr>]" 0]
    walk_visits_chain_once [OF example_chain l, of "Some [''No Data'']" None 0 empty_walk "[]" 0]
    g p i ci ok gb cb eb nh example_chain
  show ?thesis by simp
qed

text \<open>
  Claim C3 says that only the first link with relation \<^verbatim>\<open>next\<close> and a non-null href is
  followed. The loop over the links has no \<^verbatim>\<open>break\<close>: on the first page of the branching
  example, which carries two such links, the page behind the second one is loaded
  as well.
\<close>

theorem second_next_link_followed:
  "get_items 1 branching_env ''q1'' None None 0 empty_walk
     = Returned
         \<lparr>downloads = [[(''x_labels'', ''landcovernet/x/'')], [(''y_labels'', ''landcovernet/y/'')],
                       [(''z_labels'', ''landcovernet/z/'')]],
          trace = [Loading ''q1'', Getting ''x'', EnsureDir ''landcovernet/x/'',
                   Loading ''q2'', Getting ''y'', EnsureDir ''landcovernet/y/'',
                   Loading ''q3'', Getting ''z'', EnsureDir ''landcovernet/z/'']\<rparr>
   \<and> pages_loaded [Loading ''q1'', Getting ''x'', EnsureDir ''landcovernet/x/'',
                   Loading ''q2'', Getting ''y'', EnsureDir ''landcovernet/y/'',
                   Loading ''q3'', Getting ''z'', EnsureDir ''landcovernet/z/''] = [''q1'', ''q2'', ''q3'']"
  by (intro conjI) code_simp+

text \<open>
  Claim C3, amended. For every page whose loop over the features ran to its end, the walk
  follows every link whose relation is \<^verbatim>\<open>next\<close> and whose href is non-null, in page order
  and each from the counter that the page ended with, until one of these walks raises
  (where the stack has no room for a nested call, the first such link raises
  \<^verbatim>\<open>RecursionError\<close>); links with another relation or a null href are skipped. So a page
  with exactly one such link has that one followed, and whenever the loop returns, the
  page behind every such link has been loaded.
\<close>

theorem every_next_link_followed:
  "link_loop (Suc m) E c mx k ls w = follow_all m E c mx k (next_hrefs ls) w
   \<and> link_loop 0 E c mx k ls w = (if next_hrefs ls = [] then Returned w else Raised RecursionError w)
   \<and> (link_loop n E c mx k ls w = Returned w' \<longrightarrow>
        (\<exists>evs. trace w' = trace w @ evs \<and> set (next_hrefs ls) \<subseteq> set (pages_loaded evs)))"
proof (intro conjI impI)
  show "link_loop (Suc m) E c mx k ls w = follow_all m E c mx k (next_hrefs ls) w"
    by (rule link_loop_follow_all)
  show "link_loop 0 E c mx k ls w = (if next_hrefs ls = [] then Returned w else Raised RecursionError w)"
    by (rule link_loop_0)
next
  assume a: "link_loop n E c mx k ls w = Returned w'"
  show "\<exists>evs. trace w' = trace w @ evs \<and> set (next_hrefs ls) \<subseteq> set (pages_loaded evs)"
  proof (cases n)
    case 0
    with a show ?thesis by (auto simp: link_loop_0 split: if_splits)
  next
    case (Suc m')
    with a have "follow_all m' E c mx k (next_hrefs ls) w = Returned w'"
      by (simp add: link_loop_follow_all)
    then show ?thesis by (rule follow_all_loaded)
  qed
qed

theorem every_next_link_followed_witness:
  "next_hrefs [\<lparr>rel = ''next'', href = Some ''q2''\<rparr>, \<lparr>rel = ''next'', href = Some ''q3''\<rparr>] = [''q2'', ''q3'']
   \<and> link_loop 1 branching_env None None 1
        [\<lparr>rel = ''next'', href = Some ''q2''\<rparr>, \<lparr>rel = ''next'', href = Some ''q3''\<rparr>] empty_walk
       = Returned
           \<lparr>downloads = [[(''y_labels'', ''landcovernet/y/'')], [(''z_labels'', ''landcovernet/z/'')]],
            trace = [Loading ''q2'', Getting ''y'', EnsureDir ''landcovernet/y/'',
                     Loading ''q3'', Getting ''z'', EnsureDir ''landcovernet/z/'']\<rparr>
   \<and> follow_all 0 branching_env None None 1 [''q2'', ''q3''] empty_walk
       = Returned
           \<lparr>downloads = [[(''y_labels'', ''landcovernet/y/'')], [(''z_labels'', ''landcovernet/z/'')]],
            trace = [Loading ''q2'', Getting ''y'', EnsureDir ''landcovernet/y/'',
                     Loading ''q3'', Getting ''z'', EnsureDir ''landcovernet/z/'']\<rparr>"
proof -
  let ?ls = "[\<lparr>rel = ''next'', href = Some ''q2''\<rparr>, \<lparr>rel = ''next'', href = Some ''q3''\<rparr>]"
  let ?w' = "\<lparr>downloads = [[(''y_labels'', ''landcovernet/y/'')], [(''z_labels'', ''landcovernet/z/'')]],
            trace = [Loading ''q2'', Getting ''y'', EnsureDir ''landcovernet/y/'',
                     Loading ''q3'', Getting ''z'', EnsureDir ''landcovernet/z/'']\<rparr>"
  have n: "next_hrefs ?ls = [''q2'', ''q3'']" by (simp add: next_hrefs_def)
  have l: "link_loop 1 branching_env None None 1 ?ls empty_walk = Returned ?w'" by code_simp
  from every_next_link_followed [of 0 branching_env None None 1 ?ls empty_walk 1 ?w'] n l
  show ?thesis by simp
qed

subsection \<open>The cap\<close>

text \<open>
  Claim C2 says that for every cap \<open>k \<ge> 0\<close> at most \<open>k\<close> items are expanded in total. The cap
  is tested after an item has been expanded and counted, so a cap of 0 lets the first
  matching item through; and the counter is passed down by value, so on a page with two
  next links the walk behind the second link starts from the counter of the page, not
  from what the first walk reached: with a cap of 2 the branching example expands three
  items.
\<close>

theorem cap_missed_at_zero_and_on_branches:
  "get_items 0 example_env ''p2'' None (Some 0) 0 empty_walk
     = Returned
         \<lparr>downloads = [[(''lc'', ''landcovernet/c/'')]],
          trace = [Loading ''p2'', Getting ''c'', EnsureDir ''landcovernet/c/'']\<rparr>
   \<and> items_expanded [Loading ''p2'', Getting ''c'', EnsureDir ''landcovernet/c/''] = [''c'']
   \<and> get_items 1 branching_env ''q1'' None (Some 2) 0 empty_walk
     = Returned
         \<lparr>downloads = [[(''x_labels'', ''landcovernet/x/'')], [(''y_labels'', ''landcovernet/y/'')],
                       [(''z_labels'', ''landcovernet/z/'')]],
          trace = [Loading ''q1'', Getting ''x'', EnsureDir ''landcovernet/x/'',
                   Loading ''q2'', Getting ''y'', EnsureDir ''landcovernet/y/'',
                   Loading ''q3'', Getting ''z'', EnsureDir ''landcovernet/z/'']\<rparr>
   \<and> items_expanded [Loading ''q1'', Getting ''x'', EnsureDir ''landcovernet/x/'',
                   Loading ''q2'', Getting ''y'', EnsureDir ''landcovernet/y/'',
                   Loading ''q3'', Getting ''z'', EnsureDir ''landcovernet/z/''] = [''x'', ''y'', ''z'']"
  by (intro conjI) code_simp+

text \<open>
  Claim C2, amended. For every cap \<open>k \<ge> 1\<close> and every finite chain of pages whose length the
  recursion limit allows, the walk expands at most \<open>k\<close> items in total over all pages and
  keeps to the budget \<open>k\<close>: once \<open>k\<close> items have been expanded, no further item is expanded
  and no further page is loaded. The items expanded are the first \<open>k\<close> matching items of
  the chain (all of them when there are fewer); when none of their expansions raises, the
  walk returns, without an error, the accumulator it was given followed by the batches of
  these items, and when the walk raises, it is the exception of one of these expansions.
  The bound and the budget also hold, whatever the outcome of the walk, on every catalog
  in which no page carries more than one followable next link.
\<close>

theorem cap_enforced_on_chains:
  "(chain E u vs \<and> length vs \<le> n \<and> 1 \<le> k \<longrightarrow>
      (\<exists>evs. trace (walk_of (get_items n E u c (Some k) 0 w)) = trace w @ evs
         \<and> budget (nat k) evs
         \<and> int (length (items_expanded evs)) \<le> k
         \<and> ((\<forall>f\<in>set (take (nat k) (chain_items E c (u # vs))).
                 \<not> isl (snd (download_source_and_labels E f)))
              \<longrightarrow> (\<exists>w'. get_items n E u c (Some k) 0 w = Returned w'
                     \<and> downloads w' = downloads w
                          @ concat (map (expand_batches E) (take (nat k) (chain_items E c (u # vs))))
                     \<and> items_expanded evs = map item_id (take (nat k) (chain_items E c (u # vs)))))
         \<and> (\<forall>e w'. get_items n E u c (Some k) 0 w = Raised e w' \<longrightarrow>
               (\<exists>f\<in>set (take (nat k) (chain_items E c (u # vs))).
                   snd (download_source_and_labels E f) = Inl e))))
   \<and> ((\<forall>u' p. page_get E u' = Decoded p \<longrightarrow>
             length (next_hrefs (case links p of None \<Rightarrow> [] | Some ls \<Rightarrow> ls)) \<le> 1)
        \<and> 1 \<le> k \<longrightarrow>
      (\<exists>evs. trace (walk_of (get_items n E u c (Some k) 0 w)) = trace w @ evs
         \<and> budget (nat k) evs
         \<and> int (length (items_expanded evs)) \<le> k))"
proof (intro conjI impI)
  assume a: "chain E u vs \<and> length vs \<le> n \<and> 1 \<le> k"
  then have ch: "chain E u vs" and len: "length vs \<le> n" and k: "0 < k" by auto
  let ?out = "get_items n E u c (Some k) 0 w"
  let ?ss = "chain_steps E c (u # vs)"
  let ?fs = "take (nat k) (chain_items E c (u # vs))"
  have ref: "?out = flat_walk E (Some k) 0 ?ss w" by (rule chain_refines[OF ch len])
  from chain_walk[OF ch len, of c "Some k" 0 w] k obtain evs where
    t: "trace (walk_of ?out) = trace w @ evs"
    and b: "budget (nat k) evs" by auto
  from budget_items[OF b] k have le: "int (length (items_expanded evs)) \<le> k" by linarith
  have ret: "\<exists>w'. ?out = Returned w'
                     \<and> downloads w' = downloads w @ concat (map (expand_batches E) ?fs)
                     \<and> items_expanded evs = map item_id ?fs"
    if ok: "\<forall>f\<in>set ?fs. \<not> isl (snd (download_source_and_labels E f))"
  proof -
    from ok have ok': "\<forall>f\<in>set (take (nat (k - 0)) (step_items ?ss)).
        \<not> isl (snd (download_source_and_labels E f))"
      by (simp add: step_items_chain)
    from flat_capped[OF k ok', of w] obtain w' evs' where
      fw: "flat_walk E (Some k) 0 ?ss w = Returned w'"
      and dl: "downloads w' = downloads w @ concat (map (expand_batches E) ?fs)"
      and tw: "trace w' = trace w @ evs'"
      and it: "items_expanded evs' = map item_id ?fs"
      by (auto simp: step_items_chain)
    from fw ref have o: "?out = Returned w'" by simp
    with t tw have "evs' = evs" by simp
    with o dl it show ?thesis by blast
  qed
  have rai: "\<exists>f\<in>set ?fs. snd (download_source_and_labels E f) = Inl e"
    if r: "?out = Raised e w'" for e w'
  proof -
    from r ref have "flat_walk E (Some k) 0 ?ss w = Raised e w'" by simp
    from flat_raised_capped[OF this k] show ?thesis by (simp add: step_items_chain)
  qed
  from t b le ret rai
  show "\<exists>evs. trace (walk_of ?out) = trace w @ evs
         \<and> budget (nat k) evs
         \<and> int (length (items_expanded evs)) \<le> k
         \<and> ((\<forall>f\<in>set ?fs. \<not> isl (snd (download_source_and_labels E f)))
              \<longrightarrow> (\<exists>w'. ?out = Returned w'
                     \<and> downloads w' = downloads w @ concat (map (expand_batches E) ?fs)
                     \<and> items_expanded evs = map item_id ?fs))
         \<and> (\<forall>e w'. ?out = Raised e w' \<longrightarrow>
               (\<exists>f\<in>set ?fs. snd (download_source_and_labels E f) = Inl e))"
    by blast
next
  assume a: "(\<forall>u' p. page_get E u' = Decoded p \<longrightarrow>
             length (next_hrefs (case links p of None \<Rightarrow> [] | Some ls \<Rightarrow> ls)) \<le> 1)
        \<and> 1 \<le> k"
  then have sn: "\<forall>u' p. page_get E u' = Decoded p \<longrightarrow>
             length (next_hrefs (case links p of None \<Rightarrow> [] | Some ls \<Rightarrow> ls)) \<le> 1"
    and k: "0 < k" by auto
  from single_next_walk[of E 0 k n u c w, OF sn k refl] obtain evs where
    t: "trace (walk_of (get_items n E u c (Some k) 0 w)) = trace w @ evs"
    and b: "budget (nat k) evs" by auto
  from budget_items[OF b] k have "int (length (items_expanded evs)) \<le> k" by linarith
  with t b show "\<exists>evs. trace (walk_of (get_items n E u c (Some k) 0 w)) = trace w @ evs
         \<and> budget (nat k) evs
         \<and> int (length (items_expanded evs)) \<le> k" by blast
qed

theorem cap_enforced_on_chains_witness:
  "chain example_env ''p1'' [''p2''] \<and> length [''p2''] \<le> (1::nat) \<and> (1::int) \<le> 1
   \<and> take (nat 1) (chain_items example_env (Some [''Water'']) [''p1'', ''p2'']) = [example_item_a]
   \<and> \<not> isl (snd (download_source_and_labels example_env example_item_a))
   \<and> get_items 1 example_env ''p1'' (Some [''Water'']) (Some 1) 0 empty_walk
       = Returned
           \<lparr>downloads = [[(''h1'', ''landcovernet/a/2018_01_07''), (''h2'', ''landcovernet/a/2018_01_07'')],
                         [], [(''la'', ''landcovernet/a/'')]],
            trace = [Loading ''p1'', Getting ''a'', EnsureDir ''landcovernet/a/'',
                     EnsureDir ''landcovernet/a/2018_01_07'', CouldNotLoad (Some ''s2'')]\<rparr>
   \<and> concat (map (expand_batches example_env) [example_item_a])
       = [[(''h1'', ''landcovernet/a/2018_01_07''), (''h2'', ''landcovernet/a/2018_01_07'')],
                         [], [(''la'', ''landcovernet/a/'')]]
   \<and> budget 1 [Loading ''p1'', Getting ''a'', EnsureDir ''landcovernet/a/'',
                     EnsureDir ''landcovernet/a/2018_01_07'', CouldNotLoad (Some ''s2'')]
   \<and> items_expanded [Loading ''p1'', Getting ''a'', EnsureDir ''landcovernet/a/'',
                     EnsureDir ''landcovernet/a/2018_01_07'', CouldNotLoad (Some ''s2'')] = [''a'']
   \<and> get_items 1 example_env ''p1'' None (Some 5) 0 empty_walk
       = Raised DecodeError
           \<lparr>downloads = [[(''h1'', ''landcovernet/a/2018_01_07''), (''h2'', ''landcovernet/a/2018_01_07'')],
                         [], [(''la'', ''landcovernet/a/'')]],
            trace = [Loading ''p1'', Getting ''a'', EnsureDir ''landcovernet/a/'',
                     EnsureDir ''landcovernet/a/2018_01_07'', CouldNotLoad (Some ''s2''),
                     Getting ''b'', EnsureDir ''landcovernet/b/'', EnsureDir ''landcovernet/b/2018_01_07'']\<rparr>
   \<and> take (nat 5) (chain_items example_env None [''p1'', ''p2''])
       = [example_item_a, example_item_b, example_item_c]
   \<and> snd (download_source_and_labels example_env example_item_b) = Inl DecodeError
   \<and> budget 5 [Loading ''p1'', Getting ''a'', EnsureDir ''landcovernet/a/'',
                     EnsureDir ''landcovernet/a/2018_01_07'', CouldNotLoad (Some ''s2''),
                     Getting ''b'', EnsureDir ''landcovernet/b/'', EnsureDir ''landcovernet/b/2018_01_07'']"
proof -
  let ?out = "Returned
           \<lparr>downloads = [[(''h1'', ''landcovernet/a/2018_01_07''), (''h2'', ''landcovernet/a/2018_01_07'')],
                         [], [(''la'', ''landcovernet/a/'')]],
            trace = [Loading ''p1'', Getting ''a'', EnsureDir ''landcovernet/a/'',
                     EnsureDir ''landcovernet/a/2018_01_07'', CouldNotLoad (Some ''s2'')]\<rparr>"
  have g: "get_items 1 example_env ''p1'' (Some [''Water'']) (Some 1) 0 empty_walk = ?out"
    by code_simp
  have sn: "\<forall>u' p. page_get example_env u' = Decoded p \<longrightarrow>
             length (next_hrefs (case links p of None \<Rightarrow> [] | Some ls \<Rightarrow> ls)) \<le> 1"
    using example_single_next by blast
  have fs: "take (nat 1) (chain_items example_env (Some [''Water'']) [''p1'', ''p2'']) = [example_item_a]"
    by code_simp
  have ok: "\<not> isl (snd (download_source_and_labels example_env example_item_a))" by code_simp
  have eb: "concat (map (expand_batches example_env) [example_item_a])
       = [[(''h1'', ''landcovernet/a/2018_01_07''), (''h2'', ''landcovernet/a/2018_01_07'')],
                         [], [(''la'', ''landcovernet/a/'')]]" by code_simp
  have bu: "budget 1 [Loading ''p1'', Getting ''a'', EnsureDir ''landcovernet/a/'',
                     EnsureDir ''landcovernet/a/2018_01_07'', CouldNotLoad (Some ''s2'')]" by simp
  have ie: "items_expanded [Loading ''p1'', Getting ''a'', EnsureDir ''landcovernet/a/'',
                     EnsureDir ''landcovernet/a/2018_01_07'', CouldNotLoad (Some ''s2'')] = [''a'']" by simp
  have g5: "get_items 1 example_env ''p1'' None (Some 5) 0 empty_walk
       = Raised DecodeError
           \<lparr>downloads = [[(''h1'', ''landcovernet/a/2018_01_07''), (''h2'', ''landcovernet/a/2018_01_07'')],
                         [], [(''la'', ''landcovernet/a/'')]],
            trace = [Loading ''p1'', Getting ''a'', EnsureDir ''landcovernet/a/'',
                     EnsureDir ''landcovernet/a/2018_01_07'', CouldNotLoad (Some ''s2''),
                     Getting ''b'', EnsureDir ''landcovernet/b/'', EnsureDir ''landcovernet/b/2018_01_07'']\<rparr>"
    by code_simp
  have f5: "take (nat 5) (chain_items example_env None [''p1'', ''p2''])
       = [example_item_a, example_item_b, example_item_c]"
    by code_simp
  have e5: "snd (download_source_and_labels example_env example_item_b) = Inl DecodeError"
    by code_simp
  have b5: "budget 5 [Loading ''p1'', Getting ''a'', EnsureDir ''landcovernet/a/'',
                     EnsureDir ''landcovernet/a/2018_01_07'', CouldNotLoad (Some ''s2''),
                     Getting ''b'', EnsureDir ''landcovernet/b/'', EnsureDir ''landcovernet/b/2018_01_07'']" by simp
  have l: "length [''p2''] \<le> (1::nat)" by simp
  from cap_enforced_on_chains [of example_env "''p1''" "[''p2'']" 1 1 "Some [''Water'']" empty_walk]
    cap_enforced_on_chains [of example_env "''p1''" "[''p2'']" 1 5 None empty_walk]
    g sn fs ok eb bu ie g5 f5 e5 b5 l example_chain
  show ?thesis by (simp add: empty_walk_def)
qed

subsection \<open>The default accumulator\<close>

text \<open>
  Claim C10. The accumulator of \<^verbatim>\<open>get_items\<close> is a default argument, one list shared by all
  calls that omit \<^verbatim>\<open>downloads\<close>. Every such call, whether it returns or raises, leaves in
  the function object the list it found there followed by the batches it accumulated
  itself. So when two such calls follow each other, on the same or on different start
  URIs, and the second returns, its result is everything that the first call left (the
  first call's own batches last) followed by what the same call returns when it is given
  a new list: the result depends on the calls before it. A call that is given a new list
  leaves the default list as it was.
\<close>

theorem default_accumulator_shared:
  "call_get_items n1 E u1 c1 m1 None s0 = (res1, s1) \<Longrightarrow>
   call_get_items n2 E u2 c2 m2 None s1 = (res2, s2) \<Longrightarrow>
   default_downloads s1
     = default_downloads s0 @ downloads (walk_of (get_items n1 E u1 c1 m1 0 empty_walk))
   \<and> default_downloads s2
     = default_downloads s1 @ downloads (walk_of (get_items n2 E u2 c2 m2 0 empty_walk))
   \<and> (\<forall>r1. res1 = Inr r1 \<longrightarrow> r1 = default_downloads s1)
   \<and> (\<forall>r2. res2 = Inr r2 \<longrightarrow>
         (\<exists>own s'. call_get_items n2 E u2 c2 m2 (Some []) s1 = (Inr own, s')
             \<and> own = downloads (walk_of (get_items n2 E u2 c2 m2 0 empty_walk))
             \<and> r2 = default_downloads s1 @ own
             \<and> default_downloads s' = default_downloads s1))"
proof -
  assume a1: "call_get_items n1 E u1 c1 m1 None s0 = (res1, s1)"
    and a2: "call_get_items n2 E u2 c2 m2 None s1 = (res2, s2)"
  from a1 have d1: "default_downloads s1
     = default_downloads s0 @ downloads (walk_of (get_items n1 E u1 c1 m1 0 empty_walk))"
    by (auto simp: call_get_items_frame split: outcome.splits)
  from a1 have r1: "\<forall>r1. res1 = Inr r1 \<longrightarrow> r1 = default_downloads s1"
    by (auto simp: call_get_items_frame split: outcome.splits)
  from a2 have d2: "default_downloads s2
     = default_downloads s1 @ downloads (walk_of (get_items n2 E u2 c2 m2 0 empty_walk))"
    by (auto simp: call_get_items_frame split: outcome.splits)
  have r2: "\<exists>own s'. call_get_items n2 E u2 c2 m2 (Some []) s1 = (Inr own, s')
             \<and> own = downloads (walk_of (get_items n2 E u2 c2 m2 0 empty_walk))
             \<and> r2 = default_downloads s1 @ own
             \<and> default_downloads s' = default_downloads s1"
    if "res2 = Inr r2" for r2
    using that a2 by (auto simp: call_get_items_frame split: outcome.splits)
  from d1 d2 r1 r2 show ?thesis by blast
qed

theorem default_accumulator_shared_witness:
  "call_get_items 1 example_env ''p1'' None None None \<lparr>default_downloads = [], stdout = []\<rparr>
     = (Inl DecodeError,
        \<lparr>default_downloads = [[(''h1'', ''landcovernet/a/2018_01_07''), (''h2'', ''landcovernet/a/2018_01_07'')],
                         [], [(''la'', ''landcovernet/a/'')]],
         stdout = [Loading ''p1'', Getting ''a'', EnsureDir ''landcovernet/a/'',
                   EnsureDir ''landcovernet/a/2018_01_07'', CouldNotLoad (Some ''s2''),
                   Getting ''b'', EnsureDir ''landcovernet/b/'', EnsureDir ''landcovernet/b/2018_01_07'']\<rparr>)
   \<and> call_get_items 0 example_env ''p2'' None None None
        \<lparr>default_downloads = [[(''h1'', ''landcovernet/a/2018_01_07''), (''h2'', ''landcovernet/a/2018_01_07'')],
                         [], [(''la'', ''landcovernet/a/'')]],
         stdout = [Loading ''p1'', Getting ''a'', EnsureDir ''landcovernet/a/'',
                   EnsureDir ''landcovernet/a/2018_01_07'', CouldNotLoad (Some ''s2''),
                   Getting ''b'', EnsureDir ''landcovernet/b/'', EnsureDir ''landcovernet/b/2018_01_07'']\<rparr>
     = (Inr [[(''h1'', ''landcovernet/a/2018_01_07''), (''h2'', ''landcovernet/a/2018_01_07'')],
             [], [(''la'', ''landcovernet/a/'')], [(''lc'', ''landcovernet/c/'')]],
        \<lparr>default_downloads = [[(''h1'', ''landcovernet/a/2018_01_07''), (''h2'', ''landcovernet/a/2018_01_07'')],
             [], [(''la'', ''landcovernet/a/'')], [(''lc'', ''landcovernet/c/'')]],
         stdout = [Loading ''p1'', Getting ''a'', EnsureDir ''landcovernet/a/'',
                   EnsureDir ''landcovernet/a/2018_01_07'', CouldNotLoad (Some ''s2''),
                   Getting ''b'', EnsureDir ''landcovernet/b/'', EnsureDir ''landcovernet/b/2018_01_07'',
                   Loading ''p2'', Getting ''c'', EnsureDir ''landcovernet/c/'']\<rparr>)
   \<and> fst (call_get_items 0 example_env ''p2'' None None (Some [])
        \<lparr>default_downloads = [[(''h1'', ''landcovernet/a/2018_01_07''), (''h2'', ''landcovernet/a/2018_01_07'')],
                         [], [(''la'', ''landcovernet/a/'')]],
         stdout = [Loading ''p1'', Getting ''a'', EnsureDir ''landcovernet/a/'',
                   EnsureDir ''landcovernet/a/2018_01_07'', CouldNotLoad (Some ''s2''),
                   Getting ''b'', EnsureDir ''landcovernet/b/'', EnsureDir ''landcovernet/b/2018_01_07'']\<rparr>)
     = Inr [[(''lc'', ''landcovernet/c/'')]]
   \<and> call_get_items 0 example_env ''p2'' None None None
        \<lparr>default_downloads = [[(''h1'', ''landcovernet/a/2018_01_07''), (''h2'', ''landcovernet/a/2018_01_07'')],
             [], [(''la'', ''landcovernet/a/'')], [(''lc'', ''landcovernet/c/'')]],
         stdout = [Loading ''p1'', Getting ''a'', EnsureDir ''landcovernet/a/'',
                   EnsureDir ''landcovernet/a/2018_01_07'', CouldNotLoad (Some ''s2''),
                   Getting ''b'', EnsureDir ''landcovernet/b/'', EnsureDir ''landcovernet/b/2018_01_07'',
                   Loading ''p2'', Getting ''c'', EnsureDir ''landcovernet/c/'']\<rparr>
     = (Inr [[(''h1'', ''landcovernet/a/2018_01_07''), (''h2'', ''landcovernet/a/2018_01_07'')],
             [], [(''la'', ''landcovernet/a/'')], [(''lc'', ''landcovernet/c/'')], [(''lc'', ''landcovernet/c/'')]],
        \<lparr>default_downloads = [[(''h1'', ''landcovernet/a/2018_01_07''), (''h2'', ''landcovernet/a/2018_01_07'')],
             [], [(''la'', ''landcovernet/a/'')], [(''lc'', ''landcovernet/c/'')], [(''lc'', ''landcovernet/c/'')]],
         stdout = [Loading ''p1'', Getting ''a'', EnsureDir ''landcovernet/a/'',
                   EnsureDir ''landcovernet/a/2018_01_07'', CouldNotLoad (Some ''s2''),
                   Getting ''b'', EnsureDir ''landcovernet/b/'', EnsureDir ''landcovernet/b/2018_01_07'',
                   Loading ''p2'', Getting ''c'', EnsureDir ''landcovernet/c/'',
                   Loading ''p2'', Getting ''c'', EnsureDir ''landcovernet/c/'']\<rparr>)"
proof -
  let ?s0 = "\<lparr>default_downloads = [], stdout = []\<rparr>"
  let ?r1 = "[[(''h1'', ''landcovernet/a/2018_01_07''), (''h2'', ''landcovernet/a/2018_01_07'')],
                         [], [(''la'', ''landcovernet/a/'')]]"
  let ?t1 = "[Loading ''p1'', Getting ''a'', EnsureDir ''landcovernet/a/'',
                   EnsureDir ''landcovernet/a/2018_01_07'', CouldNotLoad (Some ''s2''),
                   Getting ''b'', EnsureDir ''landcovernet/b/'', EnsureDir ''landcovernet/b/2018_01_07'']"
  let ?s1 = "\<lparr>default_downloads = ?r1, stdout = ?t1\<rparr>"
  let ?r2 = "[[(''h1'', ''landcovernet/a/2018_01_07''), (''h2'', ''landcovernet/a/2018_01_07'')],
             [], [(''la'', ''landcovernet/a/'')], [(''lc'', ''landcovernet/c/'')]]"
  let ?s2 = "\<lparr>default_downloads = ?r2,
              stdout = [Loading ''p1'', Getting ''a'', EnsureDir ''landcovernet/a/'',
                   EnsureDir ''landcovernet/a/2018_01_07'', CouldNotLoad (Some ''s2''),
                   Getting ''b'', EnsureDir ''landcovernet/b/'', EnsureDir ''landcovernet/b/2018_01_07'',
                   Loading ''p2'', Getting ''c'', EnsureDir ''landcovernet/c/'']\<rparr>"
  let ?r3 = "[[(''h1'', ''landcovernet/a/2018_01_07''), (''h2'', ''landcovernet/a/2018_01_07'')],
             [], [(''la'', ''landcovernet/a/'')], [(''lc'', ''landcovernet/c/'')], [(''lc'', ''landcovernet/c/'')]]"
  let ?s3 = "\<lparr>default_downloads = ?r3,
              stdout = [Loading ''p1'', Getting ''a'', EnsureDir ''landcovernet/a/'',
                   EnsureDir ''landcovernet/a/2018_01_07'', CouldNotLoad (Some ''s2''),
                   Getting ''b'', EnsureDir ''landcovernet/b/'', EnsureDir ''landcovernet/b/2018_01_07'',
                   Loading ''p2'', Getting ''c'', EnsureDir ''landcovernet/c/'',
                   Loading ''p2'', Getting ''c'', EnsureDir ''landcovernet/c/'']\<rparr>"
  have c1: "call_get_items 1 example_env ''p1'' None None None ?s0 = (Inl DecodeError, ?s1)" by code_simp
  have c2: "call_get_items 0 example_env ''p2'' None None None ?s1 = (Inr ?r2, ?s2)" by code_simp
  have c3: "fst (call_get_items 0 example_env ''p2'' None None (Some []) ?s1)
      = Inr [[(''lc'', ''landcovernet/c/'')]]" by code_simp
  have c4: "call_get_items 0 example_env ''p2'' None None None ?s2 = (Inr ?r3, ?s3)" by code_simp
  from default_accumulator_shared [OF c1 c2] default_accumulator_shared [OF c2 c4] c1 c2 c3 c4
  show ?thesis by simp
qed

end
